theory Spec2Isabelle
  imports Main "HOL-Library.Word" "HOL-Library.Signed_Division" "HOL-Library.Multiset"
begin

section \<open>Values of the program\<close>

text \<open>
  gofigure is a Go program. On the 64-bit platforms it targets, Go's \<^verbatim>\<open>int\<close>, \<^verbatim>\<open>int64\<close>
  and \<^verbatim>\<open>time.Duration\<close> (a count of nanoseconds) are 64-bit two's complement integers:
  \<open>+\<close> and \<open>-\<close> wrap around, \<open>sint\<close> reads the signed value, and \<^verbatim>\<open>/\<close> truncates
  towards zero and panics on a zero divisor.
\<close>

type_synonym int64 = "64 word"
type_synonym go_int = "64 word"
type_synonym duration = "64 word"

text \<open>
  A Go \<^verbatim>\<open>error\<close> value: the program's own \<^verbatim>\<open>someError{what, str}\<close>, the value of
  \<^verbatim>\<open>errors.New(msg)\<close>, or an error handed back by the standard library
  (url.Parse, net.Dial, Request.Write, http.ReadResponse). \<^verbatim>\<open>nil\<close> is \<open>None\<close>.
\<close>

datatype error = SomeError string string | ErrorsNew string | LibError string

datatype panic = DivideByZero | IndexOutOfRange | NilDereference | MakeOutOfRange

text \<open>\<^verbatim>\<open>type result struct { time time.Duration; err error }\<close>\<close>

record result =
  time :: duration
  err :: "error option"

section \<open>printStats\<close>

text \<open>
  The loop \<^verbatim>\<open>for _, r := range results\<close> of printStats: a result without error appends
  its nanoseconds to \<^verbatim>\<open>times\<close> and adds them to \<^verbatim>\<open>total\<close> (int64 addition, which wraps).
\<close>

fun range_results :: "result list \<Rightarrow> int64 list \<times> int64 \<Rightarrow> int64 list \<times> int64" where
  "range_results [] (ts, tot) = (ts, tot)"
| "range_results (r # rs) (ts, tot) =
     (if err r = None then range_results rs (ts @ [time r], tot + time r)
      else range_results rs (ts, tot))"

text \<open>
  \<^verbatim>\<open>Int64Array\<close> and its \<^verbatim>\<open>Less\<close>: a signed comparison of two elements. \<^verbatim>\<open>sort.Sort\<close>
  belongs to Go's library; it reorders the slice so that no later element is \<^verbatim>\<open>Less\<close>
  than an earlier one. For int64 elements that result is one list: the ascending one.
\<close>

definition Less :: "int64 list \<Rightarrow> nat \<Rightarrow> nat \<Rightarrow> bool" where
  "Less p i j = (sint (p ! i) < sint (p ! j))"

definition sort_Sort :: "int64 list \<Rightarrow> int64 list" where
  "sort_Sort p = sort_key sint p"

text \<open>Go's integer division of an int64 by an integer divisor.\<close>

definition quo :: "int64 \<Rightarrow> int \<Rightarrow> panic + int64" where
  "quo a b = (if b = 0 then Inl DivideByZero else Inr (word_of_int (sint a sdiv b)))"

text \<open>A slice read \<^verbatim>\<open>p[i]\<close>, which panics out of range.\<close>

definition index :: "int64 list \<Rightarrow> nat \<Rightarrow> panic + int64" where
  "index p i = (if i < length p then Inr (p ! i) else Inl IndexOutOfRange)"

text \<open>
  The \<^verbatim>\<open>if len(times) > 0 { ... } else { ... }\<close> of printStats, giving
  \<^verbatim>\<open>(average, median)\<close>.
\<close>

definition average_median :: "int64 list \<Rightarrow> int64 \<Rightarrow> panic + (int64 \<times> int64)" where
  "average_median ts tot =
     (if length ts > 0 then
        (case quo tot (int (length ts)) of
           Inl p \<Rightarrow> Inl p
         | Inr average \<Rightarrow>
             (case index ts (length ts div 2) of
                Inl p \<Rightarrow> Inl p
              | Inr median \<Rightarrow> Inr (average, median)))
      else Inr (0, 0))"

text \<open>
  What the final \<^verbatim>\<open>fmt.Printf\<close> of printStats is given, in the order of its arguments.
  The durations are kept as the int64 nanoseconds that \<^verbatim>\<open>ms\<close> receives; the conversion
  to float64 milliseconds and the requests-per-second quotient are floating point and
  stay outside the model.
\<close>

record report =
  requests_performed :: go_int
  failures :: go_int
  time_taken :: int64
  average :: int64
  median :: int64
  between_responses :: int64

text \<open>
  printStats reads the global \<^verbatim>\<open>*reqs\<close>; here it is the first argument. The arguments of
  Printf are evaluated before anything is printed, so a panic in
  \<^verbatim>\<open>workTime.Nanoseconds() / int64(*reqs)\<close> leaves no report.
\<close>

definition printStats :: "go_int \<Rightarrow> result list \<Rightarrow> duration \<Rightarrow> panic + report" where
  "printStats reqs results workTime =
     (case range_results results ([], 0) of (ts0, tot) \<Rightarrow>
        (let ts = sort_Sort ts0 in
         case average_median ts tot of
           Inl p \<Rightarrow> Inl p
         | Inr (avg, med) \<Rightarrow>
             (case quo workTime (sint reqs) of
                Inl p \<Rightarrow> Inl p
              | Inr between \<Rightarrow>
                  Inr \<lparr>requests_performed = reqs,
                       failures = reqs - of_nat (length ts),
                       time_taken = workTime,
                       average = avg,
                       median = med,
                       between_responses = between\<rparr>)))"

text \<open>The results without error, and their latencies in slice order.\<close>

definition successes :: "result list \<Rightarrow> result list" where
  "successes results = filter (\<lambda>r. err r = None) results"

definition latencies :: "result list \<Rightarrow> int64 list" where
  "latencies results = map time (successes results)"

text \<open>Milliseconds as the nanoseconds of a \<^verbatim>\<open>time.Duration\<close>.\<close>

definition msec :: "nat \<Rightarrow> duration" where
  "msec n = of_nat (n * 1000000)"

section \<open>hasPort and getURL\<close>

text \<open>
  \<^verbatim>\<open>strings.LastIndex(s, sep)\<close> for a separator of one byte, as hasPort calls it: the
  index of the last occurrence, or -1. The scan keeps the last position seen.
\<close>

fun last_index_from :: "string \<Rightarrow> char \<Rightarrow> nat \<Rightarrow> int \<Rightarrow> int" where
  "last_index_from [] c n found = found"
| "last_index_from (x # xs) c n found =
     last_index_from xs c (Suc n) (if x = c then int n else found)"

definition LastIndex :: "string \<Rightarrow> char \<Rightarrow> int" where
  "LastIndex s c = last_index_from s c 0 (- 1)"

definition hasPort :: "string \<Rightarrow> bool" where
  "hasPort s = (LastIndex s CHR '':'' > LastIndex s CHR '']'')"

text \<open>
  The fields of \<^verbatim>\<open>url.URL\<close> that the program reads or writes, and the rest of the
  parsed URL in one field. \<^verbatim>\<open>url.Parse\<close> is Go's library: getURL takes it as a
  parameter.
\<close>

record url =
  Scheme :: string
  Host :: string
  Rest :: string

definition getURL :: "(string \<Rightarrow> error + url) \<Rightarrow> string \<Rightarrow> error + url" where
  "getURL parse rawurl =
     (case parse rawurl of
        Inl e \<Rightarrow> Inl e
      | Inr U \<Rightarrow>
          if Scheme U \<noteq> ''http'' \<and> Scheme U \<noteq> ''https''
          then Inl (SomeError ''unsupported protocol scheme: %s'' (Scheme U))
          else Inr (if \<not> hasPort (Host U) then U\<lparr>Host := Host U @ '':http''\<rparr> else U))"

text \<open>
  The getURL of gofigure.go, which resolves the host once and returns the address to
  dial next to the URL. \<^verbatim>\<open>strings.Split(s, ":")\<close> cuts at every colon and always
  returns at least one piece; \<^verbatim>\<open>net.ResolveIPAddr\<close> followed by \<^verbatim>\<open>ip.String()\<close> is the
  parameter \<open>resolve\<close>.
\<close>

fun Split :: "string \<Rightarrow> char \<Rightarrow> string list" where
  "Split [] c = [[]]"
| "Split (x # xs) c =
     (if x = c then [] # Split xs c
      else (x # hd (Split xs c)) # tl (Split xs c))"

definition getURL_addr ::
  "(string \<Rightarrow> error + url) \<Rightarrow> (string \<Rightarrow> error + string) \<Rightarrow> string \<Rightarrow> error + (url \<times> string)" where
  "getURL_addr parse resolve rawurl =
     (case parse rawurl of
        Inl e \<Rightarrow> Inl e
      | Inr U \<Rightarrow>
          if Scheme U \<noteq> ''http'' \<and> Scheme U \<noteq> ''https''
          then Inl (SomeError ''unsupported protocol scheme: %s'' (Scheme U))
          else
            (let bits = Split (Host U) CHR '':'';
                 host = bits ! 0;
                 port = (if length bits > 1 then bits ! 1 else ''80'')
             in case resolve host of
                  Inl e \<Rightarrow> Inl e
                | Inr ip \<Rightarrow> Inr (U, ip @ '':'' @ port)))"

text \<open>
  What \<^verbatim>\<open>net.Dial("tcp", addr)\<close> makes of the text after the last colon of its address:
  no text is port 0, a decimal number up to 65535 is that port, and a service name is
  looked up; http is 80 and https is 443 in the services table. Only the port is
  modelled: whether Dial accepts the host before the colon is left to the world of a
  call of send.
\<close>

definition port_text :: "string \<Rightarrow> string" where
  "port_text addr = drop (nat (LastIndex addr CHR '':'' + 1)) addr"

definition digit_val :: "char \<Rightarrow> nat" where
  "digit_val c = of_char c - of_char CHR ''0''"

definition is_digit :: "char \<Rightarrow> bool" where
  "is_digit c = (of_char CHR ''0'' \<le> (of_char c :: nat) \<and> (of_char c :: nat) \<le> of_char CHR ''9'')"

definition LookupPort :: "string \<Rightarrow> nat option" where
  "LookupPort service =
     (if service = [] then Some 0
      else if service = ''http'' then Some 80
      else if service = ''https'' then Some 443
      else if list_all is_digit service
              \<and> foldl (\<lambda>n c. 10 * n + digit_val c) 0 service \<le> 65535
      then Some (foldl (\<lambda>n c. 10 * n + digit_val c) 0 service)
      else None)"

definition dial_port :: "string \<Rightarrow> nat option" where
  "dial_port addr = LookupPort (port_text addr)"

text \<open>The default port that the specification gives each scheme.\<close>

definition default_port :: "string \<Rightarrow> nat option" where
  "default_port scheme =
     (if scheme = ''http'' then Some 80 else if scheme = ''https'' then Some 443 else None)"

section \<open>send\<close>

text \<open>
  A reading of the clock (\<^verbatim>\<open>time.Now()\<close>) is a number of nanoseconds. \<^verbatim>\<open>t.Sub(u)\<close> is
  the difference as a Duration, saturated at the least and greatest int64.
\<close>

type_synonym instant = int

definition Sub :: "instant \<Rightarrow> instant \<Rightarrow> duration" where
  "Sub t u = word_of_int (max (- (2 ^ 63)) (min (2 ^ 63 - 1) (t - u)))"

text \<open>
  \<^verbatim>\<open>type respErr struct { resp *http.Response; err error }\<close>: what the reading goroutine
  puts on its channel. The response is a pointer, \<open>None\<close> when nil.
\<close>

record response =
  Status :: string
  Body :: string

record respErr =
  resp :: "response option"
  rerr :: "error option"

text \<open>
  What the network does to one call of send: the clock when send reads it first, how
  and when the dial ended, how and when the write ended, and which case of the
  \<^verbatim>\<open>select\<close> was taken, with the clock read in that case.
\<close>

datatype race = TimerFired instant | ReadDone respErr instant

record world =
  clock_start :: instant
  dial_err :: "error option"
  dial_end :: instant
  write_err :: "error option"
  write_end :: instant
  raced :: race

text \<open>What send does to the outside, in order.\<close>

datatype io =
    Dial string
  | WriteRequest
  | GoReadResponse
  | After duration
  | ConnClose
  | BodyClose

text \<open>
  send, with \<^verbatim>\<open>*timeout\<close> as an argument. It returns what it did and either the result
  or the panic that ended it. \<^verbatim>\<open>rerr.resp.Body.Close()\<close> dereferences the response.
\<close>

definition send :: "url \<Rightarrow> go_int \<Rightarrow> world \<Rightarrow> io list \<times> (panic + result)" where
  "send u tmo w =
     (case dial_err w of
        Some e \<Rightarrow> ([Dial (Host u)], Inr \<lparr>time = 0, err = Some e\<rparr>)
      | None \<Rightarrow>
          (case write_err w of
             Some e \<Rightarrow>
               ([Dial (Host u), WriteRequest, ConnClose], Inr \<lparr>time = 0, err = Some e\<rparr>)
           | None \<Rightarrow>
               (case raced w of
                  TimerFired t \<Rightarrow>
                    ([Dial (Host u), WriteRequest, GoReadResponse, After (tmo * 1000000)],
                     Inr \<lparr>time = Sub t (clock_start w), err = Some (ErrorsNew ''Timeout!'')\<rparr>)
                | ReadDone re t \<Rightarrow>
                    (case resp re of
                       None \<Rightarrow>
                         ([Dial (Host u), WriteRequest, GoReadResponse, After (tmo * 1000000),
                           ConnClose],
                          Inl NilDereference)
                     | Some r \<Rightarrow>
                         ([Dial (Host u), WriteRequest, GoReadResponse, After (tmo * 1000000),
                           ConnClose, BodyClose],
                          Inr \<lparr>time = Sub t (clock_start w), err = rerr re\<rparr>)))))"

text \<open>
  The moment at which the outcome of a call is decided: the end of a failed dial, the
  end of a failed write, or the moment the select case was taken.
\<close>

definition decided :: "world \<Rightarrow> instant" where
  "decided w =
     (case dial_err w of
        Some e \<Rightarrow> dial_end w
      | None \<Rightarrow>
          (case write_err w of
             Some e \<Rightarrow> write_end w
           | None \<Rightarrow> (case raced w of TimerFired t \<Rightarrow> t | ReadDone re t \<Rightarrow> t)))"

section \<open>start, sender and the two channels\<close>

text \<open>
  A buffered Go channel: the values waiting in it, its capacity, and whether it has
  been closed. A send blocks while the buffer is full, a receive blocks while the
  buffer is empty and the channel is open, and \<^verbatim>\<open>for range\<close> over a channel leaves its
  loop only when the channel is closed and empty. Both channels of start are buffered
  whenever something is sent on them: \<^verbatim>\<open>queue\<close> has room for every ticket, and \<^verbatim>\<open>out\<close> has
  capacity \<^verbatim>\<open>concurrency\<close>, which is 0 only when there is no goroutine to send on it.
\<close>

record 'a chan =
  buf :: "'a list"
  cap :: nat
  is_closed :: bool

text \<open>
  Where a goroutine running \<^verbatim>\<open>sender\<close> stands: at the head of its \<^verbatim>\<open>for range queue\<close>,
  inside \<^verbatim>\<open>send(url)\<close> for the ticket it pulled, about to put the result on \<^verbatim>\<open>out\<close>, or
  past the loop, returned.
\<close>

datatype worker = AtRange | InSend nat | AtOut result | Returned

text \<open>What the program prints.\<close>

datatype printout =
    Usage
  | Text string
  | UrlInvalid error
  | StatisticsFor string
  | Completed nat nat
  | Erase
  | Report report

text \<open>
  The state of a run of start: its two channels, the goroutines it spawned, the
  \<^verbatim>\<open>results\<close> slice, the index \<^verbatim>\<open>i\<close> of its collecting loop, and whether it has returned.
  The last four fields only record what happened: the tickets pulled from the queue,
  the slots of \<^verbatim>\<open>results\<close> assigned, what was printed, and what the calls of send did
  to the network.
\<close>

record state =
  requests :: nat
  queue :: "nat chan"
  out :: "result chan"
  workers :: "worker list"
  results :: "result list"
  idx :: nat
  finished :: bool
  dispatched :: "nat list"
  stored :: "nat list"
  printed :: "printout list"
  net :: "io list"

text \<open>The loop \<^verbatim>\<open>for i := 0; i < requests; i++ { queue <- i }\<close>.\<close>

function preload :: "nat \<Rightarrow> nat \<Rightarrow> nat list \<Rightarrow> nat list" where
  "preload i n q = (if i < n then preload (Suc i) n (q @ [i]) else q)"
  by pat_completeness auto
termination
  by (relation "measure (\<lambda>(i, n, q). n - i)") auto

text \<open>
  start up to its collecting loop. \<^verbatim>\<open>make\<close> panics on a negative length or capacity.
  The slice holds zero values, the queue holds the tickets, and \<^verbatim>\<open>concurrency\<close>
  goroutines stand at the head of sender's loop. How much memory the machine has is
  not part of the model: \<^verbatim>\<open>make\<close> also panics, or the program dies, on a count too
  large to allocate, and of such counts the model says what an unbounded memory would
  give.
\<close>

definition start_init :: "go_int \<Rightarrow> go_int \<Rightarrow> panic + state" where
  "start_init reqs conc =
     (if sint reqs < 0 then Inl MakeOutOfRange
      else if sint conc < 0 then Inl MakeOutOfRange
      else Inr \<lparr>requests = nat (sint reqs),
                queue = \<lparr>buf = preload 0 (nat (sint reqs)) [], cap = nat (sint reqs),
                         is_closed = False\<rparr>,
                out = \<lparr>buf = [], cap = nat (sint conc), is_closed = False\<rparr>,
                workers = replicate (nat (sint conc)) AtRange,
                results = replicate (nat (sint reqs)) \<lparr>time = 0, err = None\<rparr>,
                idx = 0,
                finished = False,
                dispatched = [],
                stored = [],
                printed = [],
                net = []\<rparr>)"

text \<open>
  The moves of a run. \<open>Recv k\<close>, \<open>Call k w\<close> and \<open>Put k\<close> are goroutine \<open>k\<close> of sender
  taking a ticket, running send in the world \<open>w\<close>, and putting the result on \<^verbatim>\<open>out\<close>.
  \<open>Gather\<close> is one turn of start's collecting loop, \<open>Finish\<close> its end: the line that
  erases the progress message, and the return.
\<close>

datatype event = Recv nat | Call nat world | Put nat | Gather | Finish

datatype outcome = Next state | Stuck | Panicked panic

text \<open>
  One move. \<open>Stuck\<close> says that the goroutine named cannot move now: it is blocked on
  its channel, or it is not at that point of its code.
\<close>

definition sender_recv :: "nat \<Rightarrow> state \<Rightarrow> outcome" where
  "sender_recv k s =
     (if k < length (workers s) \<and> workers s ! k = AtRange then
        (case buf (queue s) of
           t # q \<Rightarrow>
             Next (s\<lparr>queue := (queue s)\<lparr>buf := q\<rparr>,
                     workers := (workers s)[k := InSend t],
                     dispatched := dispatched s @ [t]\<rparr>)
         | [] \<Rightarrow>
             if is_closed (queue s) then Next (s\<lparr>workers := (workers s)[k := Returned]\<rparr>)
             else Stuck)
      else Stuck)"

definition sender_call :: "url \<Rightarrow> go_int \<Rightarrow> nat \<Rightarrow> world \<Rightarrow> state \<Rightarrow> outcome" where
  "sender_call u tmo k w s =
     (if k < length (workers s) then
        (case workers s ! k of
           InSend t \<Rightarrow>
             (case send u tmo w of
                (ios, Inl p) \<Rightarrow> Panicked p
              | (ios, Inr r) \<Rightarrow>
                  Next (s\<lparr>workers := (workers s)[k := AtOut r], net := net s @ ios\<rparr>))
         | _ \<Rightarrow> Stuck)
      else Stuck)"

definition sender_put :: "nat \<Rightarrow> state \<Rightarrow> outcome" where
  "sender_put k s =
     (if k < length (workers s) then
        (case workers s ! k of
           AtOut r \<Rightarrow>
             if length (buf (out s)) < cap (out s)
             then Next (s\<lparr>out := (out s)\<lparr>buf := buf (out s) @ [r]\<rparr>,
                          workers := (workers s)[k := AtRange]\<rparr>)
             else Stuck
         | _ \<Rightarrow> Stuck)
      else Stuck)"

text \<open>
  The body of \<^verbatim>\<open>for i := 0; i < requests; i++\<close> in start: the receive, the store, and
  the progress message under \<^verbatim>\<open>i > 0 && i%100 == 0\<close>.
\<close>

definition start_collect :: "state \<Rightarrow> outcome" where
  "start_collect s =
     (if \<not> finished s \<and> idx s < requests s then
        (case buf (out s) of
           r # rest \<Rightarrow>
             Next (s\<lparr>out := (out s)\<lparr>buf := rest\<rparr>,
                     results := (results s)[idx s := r],
                     stored := stored s @ [idx s],
                     printed := printed s @
                       (if idx s > 0 \<and> idx s mod 100 = 0
                        then [Completed (idx s) (requests s)] else []),
                     idx := Suc (idx s)\<rparr>)
         | [] \<Rightarrow> Stuck)
      else Stuck)"

definition start_finish :: "state \<Rightarrow> outcome" where
  "start_finish s =
     (if \<not> finished s \<and> \<not> idx s < requests s
      then Next (s\<lparr>printed := printed s @ [Erase], finished := True\<rparr>)
      else Stuck)"

fun step :: "url \<Rightarrow> go_int \<Rightarrow> event \<Rightarrow> state \<Rightarrow> outcome" where
  "step u tmo (Recv k) s = sender_recv k s"
| "step u tmo (Call k w) s = sender_call u tmo k w s"
| "step u tmo (Put k) s = sender_put k s"
| "step u tmo Gather s = start_collect s"
| "step u tmo Finish s = start_finish s"

fun run :: "url \<Rightarrow> go_int \<Rightarrow> event list \<Rightarrow> state \<Rightarrow> outcome" where
  "run u tmo [] s = Next s"
| "run u tmo (e # es) s =
     (case step u tmo e s of
        Next s' \<Rightarrow> run u tmo es s'
      | Stuck \<Rightarrow> Stuck
      | Panicked p \<Rightarrow> Panicked p)"

text \<open>
  start under a schedule: the moves of its goroutines in the order they happen. It
  ends in the state reached, which has \<open>finished\<close> set when start has returned its
  slice; or \<open>Stuck\<close>, when the schedule asks for a move that cannot be made; or in the
  panic of \<^verbatim>\<open>make\<close> or of a call of send, which ends the program.
\<close>

definition start :: "url \<Rightarrow> go_int \<Rightarrow> go_int \<Rightarrow> go_int \<Rightarrow> event list \<Rightarrow> outcome" where
  "start u tmo reqs conc evs =
     (case start_init reqs conc of
        Inl p \<Rightarrow> Panicked p
      | Inr s0 \<Rightarrow> run u tmo evs s0)"

text \<open>The progress messages that \<open>k\<close> turns of the collecting loop have printed.\<close>

definition progress :: "nat \<Rightarrow> nat \<Rightarrow> printout list" where
  "progress k n = map (\<lambda>i. Completed i n) (filter (\<lambda>i. i > 0 \<and> i mod 100 = 0) [0..<k])"

text \<open>How many goroutines of sender hold a ticket whose result is not yet on \<^verbatim>\<open>out\<close>.\<close>

fun holding :: "worker \<Rightarrow> nat" where
  "holding (InSend t) = 1"
| "holding (AtOut r) = 1"
| "holding AtRange = 0"
| "holding Returned = 0"

section \<open>main\<close>

text \<open>
  The flags and arguments that goopt hands to main, and what main does that can be
  seen from outside: what it prints, the call of getURL, the tickets it puts on the
  queue, what its requests do to the network, and how it ends when it does not
  return.
\<close>

record config =
  args :: "string list"
  reqs_flag :: go_int
  concurrency_flag :: go_int
  timeout_flag :: go_int
  cpus_flag :: go_int

datatype action =
    Print printout
  | GetURL string
  | GOMAXPROCS go_int
  | Ticket nat
  | Network io
  | Crash panic
  | Hang

definition concurrency_message :: string where
  "concurrency_message =
     ''You can'' @ [CHR 0x27] @ ''t have concurrency higher than number of requests'' @ [CHR 0x0A]"

text \<open>
  The part of main after the header line: start and printStats. \<open>t0\<close> and \<open>t1\<close> are the
  two readings of the clock in start. A schedule that leaves start in its loop, or
  that names a goroutine which cannot move, is a run in which start does not return.
\<close>

definition run_actions :: "state \<Rightarrow> action list" where
  "run_actions s =
     map Ticket [0..<requests s] @ map Network (net s) @ map Print (printed s)"

definition main_start ::
  "url \<Rightarrow> config \<Rightarrow> event list \<Rightarrow> instant \<Rightarrow> instant \<Rightarrow> action list" where
  "main_start u cfg evs t0 t1 =
     (case start u (timeout_flag cfg) (reqs_flag cfg) (concurrency_flag cfg) evs of
        Panicked p \<Rightarrow> [Crash p]
      | Stuck \<Rightarrow> [Hang]
      | Next s \<Rightarrow>
          run_actions s @
          (if finished s then
             (case printStats (reqs_flag cfg) (results s) (Sub t1 t0) of
                Inl p \<Rightarrow> [Crash p]
              | Inr rep \<Rightarrow> [Print (Report rep)])
           else [Hang]))"

definition main ::
  "(string \<Rightarrow> error + url) \<Rightarrow> config \<Rightarrow> event list \<Rightarrow> instant \<Rightarrow> instant \<Rightarrow> action list" where
  "main parse cfg evs t0 t1 =
     (if length (args cfg) = 0 then [Print Usage]
      else if sint (concurrency_flag cfg) > sint (reqs_flag cfg)
      then [Print (Text concurrency_message)]
      else
        (case getURL parse (args cfg ! 0) of
           Inl e \<Rightarrow> [GetURL (args cfg ! 0), Print (UrlInvalid e)]
         | Inr u \<Rightarrow>
             [GetURL (args cfg ! 0), GOMAXPROCS (cpus_flag cfg),
              Print (StatisticsFor (args cfg ! 0))]
             @ main_start u cfg evs t0 t1))"

text \<open>The actions that create a ticket or touch the network.\<close>

fun is_work :: "action \<Rightarrow> bool" where
  "is_work (Ticket t) = True"
| "is_work (Network x) = True"
| "is_work (GetURL r) = True"
| "is_work a = False"

section \<open>The invariant of a run\<close>

text \<open>
  What every state of a run of start satisfies: the tickets pulled so far and the
  tickets still queued are 0, 1, ... in order; the collecting loop has assigned the
  slots below its index once each; every ticket pulled is held by a goroutine, waits
  on \<^verbatim>\<open>out\<close> or has been stored; nothing closes the queue and no goroutine has left its
  loop; and the progress messages printed are those of the turns taken.
\<close>

definition invariant :: "state \<Rightarrow> bool" where
  "invariant s \<longleftrightarrow>
     dispatched s @ buf (queue s) = [0..<requests s]
   \<and> length (results s) = requests s
   \<and> idx s \<le> requests s
   \<and> stored s = [0..<idx s]
   \<and> sum_list (map holding (workers s)) + length (buf (out s)) + idx s = length (dispatched s)
   \<and> \<not> is_closed (queue s)
   \<and> Returned \<notin> set (workers s)
   \<and> (finished s \<longrightarrow> idx s = requests s)
   \<and> printed s = progress (idx s) (requests s) @ (if finished s then [Erase] else [])"

text \<open>
  The results that calls of send have returned and that the run still holds: those in
  the slots of \<^verbatim>\<open>results\<close> below the index of the collecting loop, those waiting on
  \<^verbatim>\<open>out\<close>, and those a goroutine is about to put there.
\<close>

fun out_of :: "worker \<Rightarrow> result multiset" where
  "out_of (AtOut r) = {#r#}"
| "out_of (InSend t) = {#}"
| "out_of AtRange = {#}"
| "out_of Returned = {#}"

definition produced :: "state \<Rightarrow> result multiset" where
  "produced s =
     mset (take (idx s) (results s)) + mset (buf (out s)) + sum_list (map out_of (workers s))"

text \<open>
  The calls of send in a schedule, each by its world, in the order they are made; and
  whether a call returns a result without error.
\<close>

fun calls :: "event list \<Rightarrow> world list" where
  "calls [] = []"
| "calls (Call k w # es) = w # calls es"
| "calls (e # es) = calls es"

definition ok_call :: "url \<Rightarrow> go_int \<Rightarrow> world \<Rightarrow> bool" where
  "ok_call u tmo w = (case snd (send u tmo w) of Inr r \<Rightarrow> err r = None | Inl p \<Rightarrow> False)"

text \<open>
  A state from which a goroutine can take a whole turn: no goroutine holds a ticket,
  \<^verbatim>\<open>out\<close> is empty and has room, and start is still collecting.
\<close>

definition ready :: "state \<Rightarrow> bool" where
  "ready s \<longleftrightarrow>
     invariant s \<and> workers s \<noteq> [] \<and> sum_list (map holding (workers s)) = 0
   \<and> buf (out s) = [] \<and> 0 < cap (out s) \<and> \<not> finished s"

text \<open>
  The schedule in which goroutine 0 serves the requests one after the other, each in
  the world \<open>w\<close>, and start collects each result as it comes.
\<close>

definition round_of :: "world \<Rightarrow> event list" where
  "round_of w = [Recv 0, Call 0 w, Put 0, Gather]"

definition rounds :: "world \<Rightarrow> nat \<Rightarrow> event list" where
  "rounds w n = concat (replicate n (round_of w))"

section \<open>Example inputs\<close>

text \<open>A \<^verbatim>\<open>url.Parse\<close> that yields a given URL, and a resolver that yields a given address.\<close>

definition parse_as :: "url \<Rightarrow> string \<Rightarrow> error + url" where
  "parse_as U rawurl = Inr U"

definition resolve_as :: "string \<Rightarrow> string \<Rightarrow> error + string" where
  "resolve_as ip host = Inr ip"

definition example_https :: url where
  "example_https = \<lparr>Scheme = ''https'', Host = ''example.com'', Rest = ''/''\<rparr>"

definition loopback6 :: url where
  "loopback6 = \<lparr>Scheme = ''http'', Host = ''[::1]'', Rest = ''/''\<rparr>"

definition example_url :: url where
  "example_url = \<lparr>Scheme = ''http'', Host = ''example.com:http'', Rest = ''/''\<rparr>"

text \<open>The success latencies 10, 20, 30 and 40 ms, in the order the results arrived.\<close>

definition four_latencies :: "result list" where
  "four_latencies =
     [\<lparr>time = msec 30, err = None\<rparr>, \<lparr>time = msec 10, err = None\<rparr>,
      \<lparr>time = msec 40, err = None\<rparr>, \<lparr>time = msec 20, err = None\<rparr>]"

text \<open>
  Three worlds for a call of send: the dial is refused after 5 ms; the peer accepts
  the request and stays silent until the timer fires; the peer answers after 7 ms.
\<close>

definition refused :: world where
  "refused = \<lparr>clock_start = 0, dial_err = Some (LibError ''connection refused''),
              dial_end = 5000000, write_err = None, write_end = 5000000,
              raced = TimerFired 5000000\<rparr>"

definition silent_peer :: world where
  "silent_peer = \<lparr>clock_start = 0, dial_err = None, dial_end = 2000000,
                  write_err = None, write_end = 3000000,
                  raced = TimerFired 1003000000\<rparr>"

definition answering :: world where
  "answering = \<lparr>clock_start = 0, dial_err = None, dial_end = 2000000,
                write_err = None, write_end = 3000000,
                raced = ReadDone \<lparr>resp = Some \<lparr>Status = ''200 OK'', Body = ''ok''\<rparr>,
                                  rerr = None\<rparr> 7000000\<rparr>"

text \<open>
  Two schedules: one request by one goroutine; two requests by two goroutines, the
  second of which times out and is collected last.
\<close>

definition one_request :: "event list" where
  "one_request = [Recv 0, Call 0 answering, Put 0, Gather, Finish]"

definition two_requests :: "event list" where
  "two_requests =
     [Recv 0, Recv 1, Call 1 silent_peer, Call 0 answering, Put 0, Gather, Put 1, Gather,
      Finish]"

text \<open>The state in which start returns under \<open>one_request\<close>.\<close>

definition drained :: state where
  "drained =
     \<lparr>requests = 1, queue = \<lparr>buf = [], cap = 1, is_closed = False\<rparr>,
      out = \<lparr>buf = [], cap = 1, is_closed = False\<rparr>, workers = [AtRange],
      results = [\<lparr>time = 7000000, err = None\<rparr>], idx = 1, finished = True,
      dispatched = [0], stored = [0], printed = [Erase],
      net = [Dial ''example.com:http'', WriteRequest, GoReadResponse, After 1000000000,
             ConnClose, BodyClose]\<rparr>"

text \<open>
  Command lines: no URL with \<^verbatim>\<open>-n 1 -c 2\<close>; a URL with \<^verbatim>\<open>-n 1 -c 2\<close>; a URL with
  \<^verbatim>\<open>-n 0 -c 0\<close>.
\<close>

definition no_url :: config where
  "no_url = \<lparr>args = [], reqs_flag = 1, concurrency_flag = 2, timeout_flag = 1000,
             cpus_flag = 0\<rparr>"

definition too_concurrent :: config where
  "too_concurrent = \<lparr>args = [''http://example.com/''], reqs_flag = 1, concurrency_flag = 2,
                     timeout_flag = 1000, cpus_flag = 0\<rparr>"

definition zero_requests :: config where
  "zero_requests = \<lparr>args = [''http://example.com/''], reqs_flag = 0, concurrency_flag = 0,
                    timeout_flag = 1000, cpus_flag = 0\<rparr>"

declare preload.simps [simp del]

section \<open>Facts about printStats\<close>

lemma range_results_acc:
  "range_results rs (ts, tot) = (ts @ latencies rs, tot + sum_list (latencies rs))"
proof (induction rs arbitrary: ts tot)
  case Nil
  show ?case by (simp add: latencies_def successes_def)
next
  case (Cons r rs)
  show ?case
    by (cases "err r = None")
       (simp_all add: Cons.IH latencies_def successes_def add.assoc)
qed

lemma range_results_eq:
  "range_results rs ([], 0) = (latencies rs, sum_list (latencies rs))"
  by (simp add: range_results_acc)

lemma sort_Sort_length [simp]: "length (sort_Sort p) = length p"
  by (simp add: sort_Sort_def)

lemma sort_Sort_mset: "mset (sort_Sort p) = mset p"
  by (simp add: sort_Sort_def)

lemma sort_Sort_ascending: "sorted (map sint (sort_Sort p))"
  by (simp add: sort_Sort_def)

lemma sort_Sort_Less:
  assumes "i < j" and "j < length p"
  shows "\<not> Less (sort_Sort p) j i"
proof -
  have "sorted (map sint (sort_Sort p))" by (rule sort_Sort_ascending)
  moreover have "i \<le> j" using assms by simp
  moreover have "j < length (map sint (sort_Sort p))" using assms by simp
  ultimately have "map sint (sort_Sort p) ! i \<le> map sint (sort_Sort p) ! j"
    by (rule sorted_nth_mono)
  then show ?thesis using assms by (simp add: Less_def)
qed

lemma average_median_empty: "average_median [] tot = Inr (0, 0)"
  by (simp add: average_median_def)

lemma average_median_nonempty:
  assumes "ts \<noteq> []"
  shows "average_median ts tot =
           Inr (word_of_int (sint tot sdiv int (length ts)), ts ! (length ts div 2))"
proof -
  have "0 < length ts" using assms by simp
  moreover from this have "length ts div 2 < length ts" by simp
  ultimately show ?thesis by (simp add: average_median_def quo_def index_def)
qed

lemma printStats_no_success:
  assumes "successes rs = []" and "reqs \<noteq> 0"
  shows "printStats reqs rs workTime =
           Inr \<lparr>requests_performed = reqs, failures = reqs, time_taken = workTime,
                average = 0, median = 0,
                between_responses = word_of_int (sint workTime sdiv sint reqs)\<rparr>"
proof -
  have "latencies rs = []" using assms(1) by (simp add: latencies_def)
  moreover have "sint reqs \<noteq> 0" using assms(2) by (simp add: signed_eq_0_iff)
  ultimately show ?thesis
    by (simp add: printStats_def range_results_eq sort_Sort_def average_median_empty quo_def)
qed

lemma printStats_some_success:
  assumes "latencies rs \<noteq> []" and "reqs \<noteq> 0"
  shows "printStats reqs rs workTime =
           Inr \<lparr>requests_performed = reqs,
                failures = reqs - of_nat (length (latencies rs)),
                time_taken = workTime,
                average = word_of_int (sint (sum_list (latencies rs))
                                         sdiv int (length (latencies rs))),
                median = sort_Sort (latencies rs) ! (length (latencies rs) div 2),
                between_responses = word_of_int (sint workTime sdiv sint reqs)\<rparr>"
proof -
  have ne: "sort_Sort (latencies rs) \<noteq> []"
    using assms(1) sort_Sort_length [of "latencies rs"] by (metis length_0_conv)
  have "sint reqs \<noteq> 0" using assms(2) by (simp add: signed_eq_0_iff)
  then show ?thesis
    by (simp add: printStats_def range_results_eq average_median_nonempty [OF ne] quo_def)
qed

section \<open>Facts about hasPort and getURL\<close>

lemma last_index_from_absent:
  "c \<notin> set s \<Longrightarrow> last_index_from s c n found = found"
  by (induction s arbitrary: n found) auto

lemma last_index_from_last:
  "c \<notin> set suf \<Longrightarrow> last_index_from (pre @ c # suf) c n found = int (n + length pre)"
  by (induction pre arbitrary: n found) (auto simp: last_index_from_absent)

lemma LastIndex_absent: "c \<notin> set s \<Longrightarrow> LastIndex s c = - 1"
  by (simp add: LastIndex_def last_index_from_absent)

lemma LastIndex_last: "c \<notin> set suf \<Longrightarrow> LastIndex (pre @ c # suf) c = int (length pre)"
  by (simp add: LastIndex_def last_index_from_last)

lemma LastIndex_present:
  assumes "c \<in> set s"
  shows "\<exists>pre suf. s = pre @ c # suf \<and> c \<notin> set suf \<and> LastIndex s c = int (length pre)"
proof -
  from split_list_last [OF assms] obtain pre suf where "s = pre @ c # suf" "c \<notin> set suf"
    by blast
  then show ?thesis using LastIndex_last by blast
qed

lemma hasPort_iff:
  "hasPort s \<longleftrightarrow>
     (\<exists>pre suf. s = pre @ CHR '':'' # suf \<and> CHR '':'' \<notin> set suf \<and> CHR '']'' \<notin> set suf)"
proof
  assume hp: "hasPort s"
  have colon: "CHR '':'' \<in> set s"
  proof (rule ccontr)
    assume "CHR '':'' \<notin> set s"
    then have "LastIndex s CHR '':'' = - 1" by (rule LastIndex_absent)
    moreover have "- 1 \<le> LastIndex s CHR '']''"
      by (cases "CHR '']'' \<in> set s") (auto dest: LastIndex_present simp: LastIndex_absent)
    ultimately show False using hp by (simp add: hasPort_def)
  qed
  then obtain pre suf where s: "s = pre @ CHR '':'' # suf" and nc: "CHR '':'' \<notin> set suf"
    and li: "LastIndex s CHR '':'' = int (length pre)"
    using LastIndex_present by blast
  have "CHR '']'' \<notin> set suf"
  proof
    assume "CHR '']'' \<in> set suf"
    then obtain a b where suf: "suf = a @ CHR '']'' # b" and nb: "CHR '']'' \<notin> set b"
      using split_list_last by fast
    have "s = (pre @ CHR '':'' # a) @ CHR '']'' # b" using s suf by simp
    then have "LastIndex s CHR '']'' = int (length (pre @ CHR '':'' # a))"
      using nb LastIndex_last by blast
    then show False using hp li by (simp add: hasPort_def)
  qed
  then show "\<exists>pre suf. s = pre @ CHR '':'' # suf \<and> CHR '':'' \<notin> set suf \<and> CHR '']'' \<notin> set suf"
    using s nc by blast
next
  assume "\<exists>pre suf. s = pre @ CHR '':'' # suf \<and> CHR '':'' \<notin> set suf \<and> CHR '']'' \<notin> set suf"
  then obtain pre suf where s: "s = pre @ CHR '':'' # suf" and nc: "CHR '':'' \<notin> set suf"
    and nb: "CHR '']'' \<notin> set suf" by blast
  have li: "LastIndex s CHR '':'' = int (length pre)" using s nc LastIndex_last by blast
  have "LastIndex s CHR '']'' < int (length pre)"
  proof (cases "CHR '']'' \<in> set pre")
    case True
    then obtain a b where pre: "pre = a @ CHR '']'' # b" and b: "CHR '']'' \<notin> set b"
      using split_list_last by fast
    have "s = a @ CHR '']'' # (b @ CHR '':'' # suf)" using s pre by simp
    moreover have "CHR '']'' \<notin> set (b @ CHR '':'' # suf)" using b nb by simp
    ultimately have "LastIndex s CHR '']'' = int (length a)" using LastIndex_last by blast
    then show ?thesis using pre by simp
  next
    case False
    then have "CHR '']'' \<notin> set s" using s nb by simp
    then show ?thesis by (simp add: LastIndex_absent)
  qed
  then show "hasPort s" using li by (simp add: hasPort_def)
qed

lemma hasPort_bracketed: "\<not> hasPort ''[::1]''"
  by (simp add: hasPort_def LastIndex_def)

lemma hasPort_bracketed_port: "hasPort ''[::1]:8080''"
  by (simp add: hasPort_def LastIndex_def)

lemma port_text_append:
  "CHR '':'' \<notin> set p \<Longrightarrow> port_text (h @ CHR '':'' # p) = p"
proof -
  assume "CHR '':'' \<notin> set p"
  then have "LastIndex (h @ CHR '':'' # p) CHR '':'' = int (length h)" by (rule LastIndex_last)
  moreover have "nat (int (length h) + 1) = Suc (length h)" by simp
  ultimately show ?thesis by (simp add: port_text_def)
qed

lemma dial_port_http: "dial_port (h @ '':http'') = Some 80"
proof -
  have "port_text (h @ CHR '':'' # ''http'') = ''http''" by (rule port_text_append) simp
  then show ?thesis by (simp add: dial_port_def LookupPort_def)
qed

lemma dial_port_80: "dial_port (h @ '':'' @ ''80'') = Some 80"
proof -
  have "port_text (h @ CHR '':'' # ''80'') = ''80''" by (rule port_text_append) simp
  then show ?thesis by (simp add: dial_port_def LookupPort_def is_digit_def digit_val_def)
qed

lemma Split_no_sep: "c \<notin> set s \<Longrightarrow> Split s c = [s]"
  by (induction s) auto

lemma getURL_accepted:
  assumes "getURL parse rawurl = Inr U'"
  shows "\<exists>U. parse rawurl = Inr U
           \<and> (Scheme U = ''http'' \<or> Scheme U = ''https'')
           \<and> U' = (if hasPort (Host U) then U else U\<lparr>Host := Host U @ '':http''\<rparr>)"
  using assms by (auto simp: getURL_def split: sum.splits if_splits)

section \<open>Facts about send\<close>

lemma sint_word_of_int_64:
  assumes "- (2 ^ 63) \<le> x" and "x < 2 ^ 63"
  shows "sint (word_of_int x :: 64 word) = x"
proof -
  have "0 \<le> x + 2 ^ 63" and "x + 2 ^ 63 < 2 ^ 64" using assms by simp_all
  then have "(x + 2 ^ 63) mod 2 ^ 64 = x + 2 ^ 63" by (rule mod_pos_pos_trivial)
  then show ?thesis by (simp add: int_word_sint)
qed

lemma word_sum_list_sint:
  "word_of_int (sum_list (map sint ws)) = (sum_list ws :: 64 word)"
  by (induction ws) simp_all

lemma int_div_le_nonneg:
  fixes a :: int
  assumes "0 \<le> a"
  shows "a div n \<le> a"
  using assms by (metis div_0 int_div_le_self leI nle_le)

lemma sdiv_pos_bounds:
  fixes S :: int
  assumes "0 < n"
  shows "min 0 S \<le> S sdiv n" and "S sdiv n \<le> max 0 S"
proof -
  have sg: "sgn n = 1" using assms by simp
  have an: "\<bar>n\<bar> = n" using assms by simp
  show "min 0 S \<le> S sdiv n"
  proof (cases "0 \<le> S")
    case True
    then have "S sdiv n = S div n" using assms by (simp add: signed_divide_int_def sgn_if)
    moreover have "0 \<le> S div n" using True assms by (simp add: pos_imp_zdiv_nonneg_iff)
    ultimately show ?thesis using True by simp
  next
    case False
    then have e: "S sdiv n = - ((- S) div n)" using assms by (simp add: signed_divide_int_def sgn_if)
    have "(- S) div n \<le> - S" using False by (simp add: int_div_le_nonneg)
    then show ?thesis using False e by simp
  qed
  show "S sdiv n \<le> max 0 S"
  proof (cases "0 \<le> S")
    case True
    then have "S sdiv n = S div n" using assms by (simp add: signed_divide_int_def sgn_if)
    moreover have "S div n \<le> S" using True by (rule int_div_le_nonneg)
    ultimately show ?thesis using True by simp
  next
    case False
    then have e: "S sdiv n = - ((- S) div n)" using assms by (simp add: signed_divide_int_def sgn_if)
    have "0 \<le> (- S) div n" using False assms by (simp add: pos_imp_zdiv_nonneg_iff)
    then show ?thesis using False e by simp
  qed
qed

lemma average_exact:
  fixes ws :: "int64 list"
  assumes "ws \<noteq> []"
    and "- (2 ^ 63) \<le> sum_list (map sint ws)" and "sum_list (map sint ws) < 2 ^ 63"
  shows "sint (word_of_int (sint (sum_list ws) sdiv int (length ws)) :: int64)
           = sum_list (map sint ws) sdiv int (length ws)"
proof -
  let ?S = "sum_list (map sint ws)"
  let ?n = "int (length ws)"
  have n: "0 < ?n" using assms(1) by simp
  have "sint (sum_list ws) = sint (word_of_int ?S :: int64)" by (simp add: word_sum_list_sint)
  also have "\<dots> = ?S" using assms(2,3) by (rule sint_word_of_int_64)
  finally have s: "sint (sum_list ws) = ?S" .
  from sdiv_pos_bounds [OF n, of ?S] assms(2,3)
  have "- (2 ^ 63) \<le> ?S sdiv ?n" and "?S sdiv ?n < 2 ^ 63" by simp_all
  then have "sint (word_of_int (?S sdiv ?n) :: int64) = ?S sdiv ?n" by (rule sint_word_of_int_64)
  then show ?thesis by (simp add: s)
qed

lemma Sub_exact:
  assumes "- (2 ^ 63) \<le> t - u" and "t - u < 2 ^ 63"
  shows "sint (Sub t u) = t - u"
proof -
  have "max (- (2 ^ 63)) (min (2 ^ 63 - 1) (t - u)) = t - u" using assms by simp
  then have "Sub t u = word_of_int (t - u)" by (simp add: Sub_def)
  moreover have "sint (word_of_int (t - u) :: 64 word) = t - u"
    using assms by (rule sint_word_of_int_64)
  ultimately show ?thesis by simp
qed

lemma send_dial_failed:
  "dial_err w = Some e \<Longrightarrow> send u tmo w = ([Dial (Host u)], Inr \<lparr>time = 0, err = Some e\<rparr>)"
  by (simp add: send_def)

lemma send_write_failed:
  "dial_err w = None \<Longrightarrow> write_err w = Some e \<Longrightarrow>
   send u tmo w = ([Dial (Host u), WriteRequest, ConnClose], Inr \<lparr>time = 0, err = Some e\<rparr>)"
  by (simp add: send_def)

lemma send_timer_first:
  "dial_err w = None \<Longrightarrow> write_err w = None \<Longrightarrow> raced w = TimerFired t \<Longrightarrow>
   send u tmo w =
     ([Dial (Host u), WriteRequest, GoReadResponse, After (tmo * 1000000)],
      Inr \<lparr>time = Sub t (clock_start w), err = Some (ErrorsNew ''Timeout!'')\<rparr>)"
  by (simp add: send_def)

lemma send_read_first:
  "dial_err w = None \<Longrightarrow> write_err w = None \<Longrightarrow> raced w = ReadDone re t \<Longrightarrow>
   resp re = Some r \<Longrightarrow>
   send u tmo w =
     ([Dial (Host u), WriteRequest, GoReadResponse, After (tmo * 1000000), ConnClose, BodyClose],
      Inr \<lparr>time = Sub t (clock_start w), err = rerr re\<rparr>)"
  by (simp add: send_def)

section \<open>Facts about a run of start\<close>

lemma preload_eq: "preload i n q = q @ [i..<n]"
proof (induction i n q rule: preload.induct)
  case (1 i n q)
  show ?case
  proof (cases "i < n")
    case True
    then have "preload i n q = preload (Suc i) n (q @ [i])" by (subst preload.simps) simp
    also have "\<dots> = (q @ [i]) @ [Suc i..<n]" using True by (rule "1.IH")
    also have "\<dots> = q @ [i..<n]" using True by (simp add: upt_conv_Cons)
    finally show ?thesis .
  next
    case False
    then show ?thesis by (subst preload.simps) simp
  qed
qed

lemma holding_update:
  "k < length ws \<Longrightarrow>
   sum_list (map holding (ws[k := w])) + holding (ws ! k) = sum_list (map holding ws) + holding w"
proof (induction ws arbitrary: k)
  case Nil
  then show ?case by simp
next
  case (Cons a ws)
  show ?case
  proof (cases k)
    case 0
    then show ?thesis by simp
  next
    case (Suc j)
    with Cons.prems have "j < length ws" by simp
    from Cons.IH [OF this] Suc show ?thesis by simp
  qed
qed

lemma progress_Suc:
  "progress (Suc k) n = progress k n @ (if k > 0 \<and> k mod 100 = 0 then [Completed k n] else [])"
  by (simp add: progress_def)

lemma start_init_invariant:
  assumes "start_init reqs conc = Inr s0"
  shows "invariant s0" and "requests s0 = nat (sint reqs)"
    and "workers s0 = replicate (nat (sint conc)) AtRange"
    and "0 \<le> sint reqs" and "0 \<le> sint conc"
proof -
  from assms have r: "0 \<le> sint reqs" and c: "0 \<le> sint conc"
    by (auto simp: start_init_def split: if_splits)
  from assms r c have s0: "s0 = \<lparr>requests = nat (sint reqs),
                queue = \<lparr>buf = preload 0 (nat (sint reqs)) [], cap = nat (sint reqs),
                         is_closed = False\<rparr>,
                out = \<lparr>buf = [], cap = nat (sint conc), is_closed = False\<rparr>,
                workers = replicate (nat (sint conc)) AtRange,
                results = replicate (nat (sint reqs)) \<lparr>time = 0, err = None\<rparr>,
                idx = 0, finished = False, dispatched = [], stored = [], printed = [],
                net = []\<rparr>"
    by (auto simp: start_init_def split: if_splits)
  have "sum_list (map holding (replicate (nat (sint conc)) AtRange)) = 0"
    by (simp add: sum_list_replicate)
  then show "invariant s0"
    unfolding s0 by (simp add: invariant_def preload_eq progress_def)
  show "requests s0 = nat (sint reqs)" unfolding s0 by simp
  show "workers s0 = replicate (nat (sint conc)) AtRange" unfolding s0 by simp
  show "0 \<le> sint reqs" by (rule r)
  show "0 \<le> sint conc" by (rule c)
qed

lemma sender_recv_invariant:
  assumes "invariant s" and "sender_recv k s = Next s'"
  shows "invariant s' \<and> requests s' = requests s"
proof -
  from assms(1) have open_q: "\<not> is_closed (queue s)" by (simp add: invariant_def)
  from assms(2) open_q obtain t q where k: "k < length (workers s)" "workers s ! k = AtRange"
    and b: "buf (queue s) = t # q"
    and s': "s' = s\<lparr>queue := (queue s)\<lparr>buf := q\<rparr>,
                     workers := (workers s)[k := InSend t],
                     dispatched := dispatched s @ [t]\<rparr>"
    by (auto simp: sender_recv_def split: if_splits list.splits)
  from holding_update [OF k(1), of "InSend t"] k(2)
  have h: "sum_list (map holding ((workers s)[k := InSend t])) = sum_list (map holding (workers s)) + 1"
    by simp
  have nr: "Returned \<notin> set ((workers s)[k := InSend t])"
    using assms(1) by (auto simp: invariant_def dest!: set_update_subset_insert [THEN subsetD])
  show ?thesis
    using assms(1) b h nr unfolding s' by (simp add: invariant_def)
qed

lemma sender_call_invariant:
  assumes "invariant s" and "sender_call u tmo k w s = Next s'"
  shows "invariant s' \<and> requests s' = requests s"
proof -
  from assms(2) obtain t r ios where k: "k < length (workers s)" "workers s ! k = InSend t"
    and s': "s' = s\<lparr>workers := (workers s)[k := AtOut r], net := net s @ ios\<rparr>"
    by (auto simp: sender_call_def split: if_splits worker.splits prod.splits sum.splits)
  from holding_update [OF k(1), of "AtOut r"] k(2)
  have h: "sum_list (map holding ((workers s)[k := AtOut r])) = sum_list (map holding (workers s))"
    by simp
  have nr: "Returned \<notin> set ((workers s)[k := AtOut r])"
    using assms(1) by (auto simp: invariant_def dest!: set_update_subset_insert [THEN subsetD])
  show ?thesis
    using assms(1) h nr unfolding s' by (simp add: invariant_def)
qed

lemma sender_put_invariant:
  assumes "invariant s" and "sender_put k s = Next s'"
  shows "invariant s' \<and> requests s' = requests s"
proof -
  from assms(2) obtain r where k: "k < length (workers s)" "workers s ! k = AtOut r"
    and s': "s' = s\<lparr>out := (out s)\<lparr>buf := buf (out s) @ [r]\<rparr>,
                    workers := (workers s)[k := AtRange]\<rparr>"
    by (auto simp: sender_put_def split: if_splits worker.splits)
  from holding_update [OF k(1), of AtRange] k(2)
  have h: "sum_list (map holding ((workers s)[k := AtRange])) + 1 = sum_list (map holding (workers s))"
    by simp
  have nr: "Returned \<notin> set ((workers s)[k := AtRange])"
    using assms(1) by (auto simp: invariant_def dest!: set_update_subset_insert [THEN subsetD])
  show ?thesis
    using assms(1) h nr unfolding s' by (simp add: invariant_def)
qed

lemma start_collect_invariant:
  assumes "invariant s" and "start_collect s = Next s'"
  shows "invariant s' \<and> requests s' = requests s"
proof -
  from assms(2) obtain r rest where c: "\<not> finished s" "idx s < requests s"
    and b: "buf (out s) = r # rest"
    and s': "s' = s\<lparr>out := (out s)\<lparr>buf := rest\<rparr>,
                     results := (results s)[idx s := r],
                     stored := stored s @ [idx s],
                     printed := printed s @
                       (if idx s > 0 \<and> idx s mod 100 = 0
                        then [Completed (idx s) (requests s)] else []),
                     idx := Suc (idx s)\<rparr>"
    by (auto simp: start_collect_def split: if_splits list.splits)
  show ?thesis
    using assms(1) c b unfolding s' by (simp add: invariant_def progress_Suc)
qed

lemma start_finish_invariant:
  assumes "invariant s" and "start_finish s = Next s'"
  shows "invariant s' \<and> requests s' = requests s"
proof -
  from assms(2) have c: "\<not> finished s" "\<not> idx s < requests s"
    and s': "s' = s\<lparr>printed := printed s @ [Erase], finished := True\<rparr>"
    by (auto simp: start_finish_def split: if_splits)
  show ?thesis
    using assms(1) c unfolding s' by (simp add: invariant_def)
qed

lemma step_invariant:
  assumes "invariant s" and "step u tmo e s = Next s'"
  shows "invariant s' \<and> requests s' = requests s"
proof (cases e)
  case (Recv k)
  with assms(2) have "sender_recv k s = Next s'" by simp
  with assms(1) show ?thesis by (rule sender_recv_invariant)
next
  case (Call k w)
  with assms(2) have "sender_call u tmo k w s = Next s'" by simp
  with assms(1) show ?thesis by (rule sender_call_invariant)
next
  case (Put k)
  with assms(2) have "sender_put k s = Next s'" by simp
  with assms(1) show ?thesis by (rule sender_put_invariant)
next
  case Gather
  with assms(2) have "start_collect s = Next s'" by simp
  with assms(1) show ?thesis by (rule start_collect_invariant)
next
  case Finish
  with assms(2) have "start_finish s = Next s'" by simp
  with assms(1) show ?thesis by (rule start_finish_invariant)
qed

lemma run_invariant:
  assumes "invariant s" and "run u tmo evs s = Next s'"
  shows "invariant s' \<and> requests s' = requests s"
  using assms
proof (induction evs arbitrary: s)
  case Nil
  then show ?case by simp
next
  case (Cons e evs)
  from Cons.prems(2) obtain s1 where s1: "step u tmo e s = Next s1" and r: "run u tmo evs s1 = Next s'"
    by (cases "step u tmo e s") simp_all
  from step_invariant [OF Cons.prems(1) s1] have "invariant s1" "requests s1 = requests s" by simp_all
  with Cons.IH [OF _ r] show ?case by simp
qed

lemma invariant_finished:
  assumes "invariant s" and "finished s"
  shows "idx s = requests s" and "dispatched s = [0..<requests s]" and "buf (queue s) = []"
    and "stored s = [0..<requests s]" and "length (results s) = requests s"
    and "buf (out s) = []" and "\<forall>w \<in> set (workers s). w = AtRange"
proof -
  from assms show i: "idx s = requests s" by (simp add: invariant_def)
  from assms(1) have app: "dispatched s @ buf (queue s) = [0..<requests s]"
    and cnt: "sum_list (map holding (workers s)) + length (buf (out s)) + idx s = length (dispatched s)"
    by (simp_all add: invariant_def)
  from app have "length (dispatched s) + length (buf (queue s)) = requests s"
    by (metis length_append length_upt minus_nat.diff_0)
  with cnt i have z: "length (buf (queue s)) = 0" "length (buf (out s)) = 0"
    "sum_list (map holding (workers s)) = 0" by linarith+
  then show q: "buf (queue s) = []" by simp
  with app show "dispatched s = [0..<requests s]" by simp
  from assms(1) i show "stored s = [0..<requests s]" by (simp add: invariant_def)
  from assms(1) show "length (results s) = requests s" by (simp add: invariant_def)
  from z show "buf (out s) = []" by simp
  from assms(1) have nr: "Returned \<notin> set (workers s)" by (simp add: invariant_def)
  show "\<forall>w \<in> set (workers s). w = AtRange"
  proof
    fix w assume w: "w \<in> set (workers s)"
    with z(3) have "holding w = 0" by (auto simp: sum_list_eq_0_iff)
    moreover from w nr have "w \<noteq> Returned" by blast
    ultimately show "w = AtRange" by (cases w) simp_all
  qed
qed

lemma start_invariant:
  assumes "start u tmo reqs conc evs = Next s"
  shows "invariant s" and "requests s = nat (sint reqs)" and "0 \<le> sint reqs"
proof -
  from assms obtain s0 where i: "start_init reqs conc = Inr s0" and r: "run u tmo evs s0 = Next s"
    by (auto simp: start_def split: sum.splits)
  from start_init_invariant [OF i] have "invariant s0" "requests s0 = nat (sint reqs)"
    "0 \<le> sint reqs" by simp_all
  with run_invariant [OF _ r] show "invariant s" "requests s = nat (sint reqs)" "0 \<le> sint reqs"
    by simp_all
qed

lemma sint_minus_count:
  fixes reqs :: go_int
  assumes "int k \<le> sint reqs"
  shows "sint (reqs - of_nat k) = sint reqs - int k"
proof -
  have "sint reqs < 2 ^ 63" using sint_lt [of reqs] by simp
  then have hi: "sint reqs - int k < 2 ^ 63" by simp
  have lo: "- (2 ^ 63) \<le> sint reqs - int k" using assms by simp
  have "reqs - of_nat k = word_of_int (sint reqs - int k)" by simp
  then show ?thesis using sint_word_of_int_64 [OF lo hi] by simp
qed

lemma printStats_report:
  assumes "printStats reqs rs wt = Inr rep"
  shows "reqs \<noteq> 0" and "requests_performed rep = reqs"
    and "failures rep = reqs - of_nat (length (successes rs))"
proof -
  have nz: "reqs \<noteq> 0"
  proof
    assume "reqs = 0"
    then have "\<exists>p. printStats reqs rs wt = Inl p"
      by (auto simp: printStats_def range_results_eq quo_def Let_def split: sum.splits prod.splits)
    with assms show False by auto
  qed
  have both: "requests_performed rep = reqs
      \<and> failures rep = reqs - of_nat (length (successes rs))"
  proof (cases "latencies rs = []")
    case True
    then have e: "successes rs = []" by (simp add: latencies_def)
    from printStats_no_success [OF e nz, of wt] assms e show ?thesis by auto
  next
    case False
    from printStats_some_success [OF False nz, of wt] assms show ?thesis
      by (auto simp: latencies_def)
  qed
  show "reqs \<noteq> 0" by (rule nz)
  show "requests_performed rep = reqs" using both by simp
  show "failures rep = reqs - of_nat (length (successes rs))" using both by simp
qed

lemma printStats_reports:
  assumes "reqs \<noteq> 0"
  shows "\<exists>rep. printStats reqs rs wt = Inr rep"
proof (cases "latencies rs = []")
  case True
  then have "successes rs = []" by (simp add: latencies_def)
  from printStats_no_success [OF this assms] show ?thesis by blast
next
  case False
  from printStats_some_success [OF False assms] show ?thesis by blast
qed

lemma progress_none: "k \<le> 100 \<Longrightarrow> progress k n = []"
  by (auto simp: progress_def filter_empty_conv)

lemma progress_101: "progress 101 n = [Completed 100 n]"
proof -
  from progress_Suc [of 100 n]
  have "progress 101 n = progress 100 n @ [Completed 100 n]" by simp
  then show ?thesis by (simp add: progress_none)
qed

lemma start_eval_two_full:
  "start example_url 1000 2 2 two_requests = Next
  \<lparr>requests = 2, queue = \<lparr>buf = [], cap = 2, is_closed = False\<rparr>,
     out = \<lparr>buf = [], cap = 2, is_closed = False\<rparr>,
     workers = [AtRange, AtRange],
     results =
       [\<lparr>time = 7000000, err = None\<rparr>,
        \<lparr>time = 1003000000, err = Some (ErrorsNew ''Timeout!'')\<rparr>],
     idx = 2, finished = True, dispatched = [0, 1], stored = [0, 1],
     printed = [Erase],
     net =
       [Dial ''example.com:http'', WriteRequest, GoReadResponse,
        After 1000000000, Dial ''example.com:http'', WriteRequest,
        GoReadResponse, After 1000000000, ConnClose, BodyClose]\<rparr>"
  by (simp add: start_def start_init_def two_requests_def preload_eq sender_recv_def
        sender_call_def sender_put_def start_collect_def start_finish_def send_def
        silent_peer_def answering_def upt_rec numeral_2_eq_2 example_url_def Sub_def)

lemma start_eval_two:
  "\<exists>s. start example_url 1000 2 2 two_requests = Next s \<and> finished s"
  by (simp add: start_eval_two_full)

lemma start_eval_one: "start example_url 1000 1 1 one_request = Next drained"
  by (simp add: start_def start_init_def one_request_def preload_eq sender_recv_def
        sender_call_def sender_put_def start_collect_def start_finish_def send_def
        answering_def upt_rec example_url_def Sub_def drained_def)

lemma run_append:
  "run u tmo (es @ fs) s =
     (case run u tmo es s of Next s' \<Rightarrow> run u tmo fs s' | Stuck \<Rightarrow> Stuck | Panicked p \<Rightarrow> Panicked p)"
  by (induction es arbitrary: s) (auto split: outcome.splits)

lemma holding_zero_AtRange:
  assumes "sum_list (map holding ws) = 0" and "Returned \<notin> set ws" and "k < length ws"
  shows "ws ! k = AtRange"
proof -
  have "ws ! k \<in> set ws" using assms(3) by simp
  with assms(1) have "holding (ws ! k) = 0" by (auto simp: sum_list_eq_0_iff)
  moreover have "ws ! k \<noteq> Returned" using assms(2) \<open>ws ! k \<in> set ws\<close> by metis
  ultimately show ?thesis by (cases "ws ! k") simp_all
qed

lemma ready_round:
  assumes r: "ready s" and lt: "idx s < requests s" and ok: "snd (send u tmo w) = Inr res"
  shows "\<exists>s'. run u tmo (round_of w) s = Next s' \<and> ready s' \<and> idx s' = Suc (idx s)
              \<and> requests s' = requests s"
proof -
  from r have inv: "invariant s" and ne: "workers s \<noteq> []"
    and hz: "sum_list (map holding (workers s)) = 0" and ob: "buf (out s) = []"
    and cp: "0 < cap (out s)" and nf: "\<not> finished s" by (simp_all add: ready_def)
  from ne have k: "0 < length (workers s)" by simp
  from inv have nr: "Returned \<notin> set (workers s)" by (simp add: invariant_def)
  from holding_zero_AtRange [OF hz nr k] have w0: "workers s ! 0 = AtRange" .
  from inv hz ob have "length (dispatched s) = idx s" by (simp add: invariant_def)
  moreover from inv have "dispatched s @ buf (queue s) = [0..<requests s]"
    by (simp add: invariant_def)
  ultimately have "length (buf (queue s)) = requests s - idx s"
    by (metis add_diff_cancel_left' length_append length_upt minus_nat.diff_0)
  with lt obtain t q where q: "buf (queue s) = t # q" by (cases "buf (queue s)") auto
  obtain ios where sd: "send u tmo w = (ios, Inr res)" using ok by (cases "send u tmo w") auto
  let ?s' = "s\<lparr>queue := (queue s)\<lparr>buf := q\<rparr>,
               workers := (workers s)[0 := AtRange],
               dispatched := dispatched s @ [t],
               net := net s @ ios,
               out := (out s)\<lparr>buf := []\<rparr>,
               results := (results s)[idx s := res],
               stored := stored s @ [idx s],
               printed := printed s @
                 (if idx s > 0 \<and> idx s mod 100 = 0 then [Completed (idx s) (requests s)] else []),
               idx := Suc (idx s)\<rparr>"
  have run: "run u tmo (round_of w) s = Next ?s'"
    using k w0 q sd ob cp nf lt
    by (simp add: round_of_def sender_recv_def sender_call_def sender_put_def start_collect_def)
  from run_invariant [OF inv run] have inv': "invariant ?s'" by simp
  have ws: "(workers s)[0 := AtRange] = workers s" using w0 by (metis list_update_id)
  have "ready ?s'"
    using inv' ne hz cp nf ws by (simp add: ready_def)
  with run show ?thesis by auto
qed

lemma ready_rounds:
  assumes "ready s" and "idx s + k \<le> requests s" and "snd (send u tmo w) = Inr res"
  shows "\<exists>s'. run u tmo (rounds w k) s = Next s' \<and> ready s' \<and> idx s' = idx s + k
              \<and> requests s' = requests s"
  using assms(1,2)
proof (induction k arbitrary: s)
  case 0
  then show ?case by (simp add: rounds_def)
next
  case (Suc k)
  from Suc.prems(2) have lt: "idx s < requests s" by simp
  from ready_round [OF Suc.prems(1) lt assms(3)] obtain s1 where
    s1: "run u tmo (round_of w) s = Next s1" "ready s1" "idx s1 = Suc (idx s)"
        "requests s1 = requests s" by blast
  from Suc.prems(2) s1(3,4) have "idx s1 + k \<le> requests s1" by simp
  from Suc.IH [OF s1(2) this] obtain s' where
    s': "run u tmo (rounds w k) s1 = Next s'" "ready s'" "idx s' = idx s1 + k"
        "requests s' = requests s1" by blast
  have "rounds w (Suc k) = round_of w @ rounds w k" by (simp add: rounds_def)
  then have "run u tmo (rounds w (Suc k)) s = Next s'"
    using s1(1) s'(1) by (simp add: run_append)
  with s' s1 show ?case by simp
qed

lemma start_init_ready:
  assumes "0 \<le> sint reqs" and "0 < sint conc"
  shows "\<exists>s0. start_init reqs conc = Inr s0 \<and> ready s0 \<and> idx s0 = 0
              \<and> requests s0 = nat (sint reqs)"
proof -
  from assms obtain s0 where i: "start_init reqs conc = Inr s0"
    by (simp add: start_init_def)
  from start_init_invariant [OF i] have inv: "invariant s0"
    and n: "requests s0 = nat (sint reqs)"
    and ws: "workers s0 = replicate (nat (sint conc)) AtRange" by simp_all
  from i assms have rest: "buf (out s0) = []" "cap (out s0) = nat (sint conc)"
    "\<not> finished s0" "idx s0 = 0"
    by (auto simp: start_init_def)
  have "workers s0 \<noteq> []" using ws assms(2) by auto
  moreover have "sum_list (map holding (workers s0)) = 0" using ws by (simp add: sum_list_replicate)
  ultimately have "ready s0" using inv rest assms(2) by (simp add: ready_def)
  with i n rest show ?thesis by blast
qed

lemma start_rounds:
  assumes "0 \<le> sint reqs" and "0 < sint conc" and "k \<le> nat (sint reqs)"
    and "snd (send u tmo w) = Inr res"
  shows "\<exists>s. start u tmo reqs conc (rounds w k) = Next s \<and> ready s \<and> idx s = k
             \<and> stored s = [0..<k] \<and> printed s = progress k (nat (sint reqs))"
proof -
  from start_init_ready [OF assms(1,2)] obtain s0 where
    s0: "start_init reqs conc = Inr s0" "ready s0" "idx s0 = 0" "requests s0 = nat (sint reqs)"
    by blast
  from assms(3) s0(3,4) have "idx s0 + k \<le> requests s0" by simp
  from ready_rounds [OF s0(2) this assms(4)] obtain s where
    s: "run u tmo (rounds w k) s0 = Next s" "ready s" "idx s = idx s0 + k"
       "requests s = requests s0" by blast
  from s(2) have "invariant s" "\<not> finished s" by (simp_all add: ready_def)
  then have "printed s = progress (idx s) (requests s)" "stored s = [0..<idx s]"
    by (simp_all add: invariant_def)
  with s s0 show ?thesis by (simp add: start_def)
qed

lemma start_returns:
  assumes "0 \<le> sint reqs" and "0 < sint conc" and "snd (send u tmo w) = Inr res"
  shows "\<exists>s. start u tmo reqs conc (rounds w (nat (sint reqs)) @ [Finish]) = Next s \<and> finished s"
proof -
  from start_init_ready [OF assms(1,2)] obtain s0 where
    s0: "start_init reqs conc = Inr s0" "ready s0" "idx s0 = 0" "requests s0 = nat (sint reqs)"
    by blast
  from s0(3,4) have "idx s0 + nat (sint reqs) \<le> requests s0" by simp
  from ready_rounds [OF s0(2) this assms(3)] obtain s where
    s: "run u tmo (rounds w (nat (sint reqs))) s0 = Next s" "ready s"
       "idx s = idx s0 + nat (sint reqs)" "requests s = requests s0" by blast
  from s(2) have nf: "\<not> finished s" by (simp add: ready_def)
  from s(3,4) s0(3,4) have "\<not> idx s < requests s" by simp
  with nf have "start_finish s = Next (s\<lparr>printed := printed s @ [Erase], finished := True\<rparr>)"
    by (simp add: start_finish_def)
  with s(1) s0(1) show ?thesis by (simp add: start_def run_append)
qed

lemma send_answering: "snd (send u tmo answering) = Inr \<lparr>time = 7000000, err = None\<rparr>"
  by (simp add: send_def answering_def Sub_def)

lemma printed_progress:
  assumes "start u tmo reqs conc evs = Next s"
  shows "printed s = progress (idx s) (nat (sint reqs)) @ (if finished s then [Erase] else [])"
proof -
  from start_invariant [OF assms] have "invariant s" "requests s = nat (sint reqs)" by simp_all
  then show ?thesis by (simp add: invariant_def)
qed

lemma out_of_update:
  "k < length ws \<Longrightarrow>
   sum_list (map out_of (ws[k := w])) + out_of (ws ! k) = sum_list (map out_of ws) + out_of w"
proof (induction ws arbitrary: k)
  case Nil
  then show ?case by simp
next
  case (Cons a ws)
  show ?case
  proof (cases k)
    case 0
    then show ?thesis by (simp add: ac_simps)
  next
    case (Suc j)
    with Cons.prems have "j < length ws" by simp
    from Cons.IH [OF this] Suc show ?thesis by (simp add: ac_simps)
  qed
qed

lemma sum_list_replicate_empty: "sum_list (replicate n ({#} :: 'a multiset)) = {#}"
  by (induction n) simp_all

lemma out_of_idle: "\<forall>w \<in> set ws. w = AtRange \<Longrightarrow> sum_list (map out_of ws) = {#}"
  by (induction ws) simp_all

lemma sender_recv_produced:
  assumes "sender_recv k s = Next s'" and "\<not> is_closed (queue s)"
  shows "produced s' = produced s"
proof -
  from assms obtain t q where k: "k < length (workers s)" "workers s ! k = AtRange"
    and s': "s' = s\<lparr>queue := (queue s)\<lparr>buf := q\<rparr>,
                     workers := (workers s)[k := InSend t],
                     dispatched := dispatched s @ [t]\<rparr>"
    by (auto simp: sender_recv_def split: if_splits list.splits)
  from out_of_update [OF k(1), of "InSend t"] k(2)
  have "sum_list (map out_of ((workers s)[k := InSend t])) = sum_list (map out_of (workers s))"
    by simp
  then show ?thesis unfolding s' by (simp add: produced_def)
qed

lemma sender_call_produced:
  assumes "sender_call u tmo k w s = Next s'"
  shows "\<exists>r. snd (send u tmo w) = Inr r \<and> produced s' = produced s + {#r#}"
proof -
  from assms obtain t r ios where k: "k < length (workers s)" "workers s ! k = InSend t"
    and sd: "send u tmo w = (ios, Inr r)"
    and s': "s' = s\<lparr>workers := (workers s)[k := AtOut r], net := net s @ ios\<rparr>"
    by (auto simp: sender_call_def split: if_splits worker.splits prod.splits sum.splits)
  from out_of_update [OF k(1), of "AtOut r"] k(2)
  have "sum_list (map out_of ((workers s)[k := AtOut r])) = sum_list (map out_of (workers s)) + {#r#}"
    by simp
  then have "produced s' = produced s + {#r#}" unfolding s' by (simp add: produced_def)
  with sd show ?thesis by simp
qed

lemma sender_put_produced:
  assumes "sender_put k s = Next s'"
  shows "produced s' = produced s"
proof -
  from assms obtain r where k: "k < length (workers s)" "workers s ! k = AtOut r"
    and s': "s' = s\<lparr>out := (out s)\<lparr>buf := buf (out s) @ [r]\<rparr>,
                    workers := (workers s)[k := AtRange]\<rparr>"
    by (auto simp: sender_put_def split: if_splits worker.splits)
  from out_of_update [OF k(1), of AtRange] k(2)
  have "sum_list (map out_of ((workers s)[k := AtRange])) + {#r#} = sum_list (map out_of (workers s))"
    by simp
  then show ?thesis unfolding s' by (simp add: produced_def ac_simps)
qed

lemma start_collect_produced:
  assumes "start_collect s = Next s'" and "length (results s) = requests s"
  shows "produced s' = produced s"
proof -
  from assms(1) obtain r rest where c: "idx s < requests s"
    and b: "buf (out s) = r # rest"
    and s': "s' = s\<lparr>out := (out s)\<lparr>buf := rest\<rparr>,
                     results := (results s)[idx s := r],
                     stored := stored s @ [idx s],
                     printed := printed s @
                       (if idx s > 0 \<and> idx s mod 100 = 0
                        then [Completed (idx s) (requests s)] else []),
                     idx := Suc (idx s)\<rparr>"
    by (auto simp: start_collect_def split: if_splits list.splits)
  from c assms(2) have lt: "idx s < length (results s)" by simp
  then have "take (Suc (idx s)) ((results s)[idx s := r]) = take (idx s) (results s) @ [r]"
    by (simp add: take_Suc_conv_app_nth)
  then show ?thesis unfolding s' using b by (simp add: produced_def)
qed

lemma start_finish_produced:
  assumes "start_finish s = Next s'"
  shows "produced s' = produced s"
  using assms by (auto simp: start_finish_def produced_def split: if_splits)

lemma step_produced:
  assumes "invariant s" and "step u tmo e s = Next s'"
  shows "image_mset Inr (produced s') =
           image_mset Inr (produced s) + mset (map (\<lambda>w. snd (send u tmo w)) (calls [e]))"
proof -
  from assms(1) have op: "\<not> is_closed (queue s)" and len: "length (results s) = requests s"
    by (simp_all add: invariant_def)
  show ?thesis
  proof (cases e)
    case (Recv k)
    with assms(2) have "sender_recv k s = Next s'" by simp
    from sender_recv_produced [OF this op] Recv show ?thesis by simp
  next
    case (Call k w)
    with assms(2) have "sender_call u tmo k w s = Next s'" by simp
    from sender_call_produced [OF this] Call show ?thesis by auto
  next
    case (Put k)
    with assms(2) have "sender_put k s = Next s'" by simp
    from sender_put_produced [OF this] Put show ?thesis by simp
  next
    case Gather
    with assms(2) have "start_collect s = Next s'" by simp
    from start_collect_produced [OF this len] Gather show ?thesis by simp
  next
    case Finish
    with assms(2) have "start_finish s = Next s'" by simp
    from start_finish_produced [OF this] Finish show ?thesis by simp
  qed
qed

lemma calls_Cons: "calls (e # es) = calls [e] @ calls es"
  by (cases e) simp_all

lemma run_produced:
  assumes "invariant s" and "run u tmo evs s = Next s'"
  shows "image_mset Inr (produced s') =
           image_mset Inr (produced s) + mset (map (\<lambda>w. snd (send u tmo w)) (calls evs))"
  using assms
proof (induction evs arbitrary: s)
  case Nil
  then show ?case by simp
next
  case (Cons e evs)
  from Cons.prems(2) obtain s1 where s1: "step u tmo e s = Next s1"
    and r: "run u tmo evs s1 = Next s'"
    by (cases "step u tmo e s") simp_all
  from step_invariant [OF Cons.prems(1) s1] have i1: "invariant s1" by simp
  from Cons.IH [OF i1 r] step_produced [OF Cons.prems(1) s1] calls_Cons [of e evs]
  show ?case by (simp add: ac_simps)
qed

lemma start_produced:
  assumes "start u tmo reqs conc evs = Next s" and "finished s"
  shows "mset (map Inr (results s)) = mset (map (\<lambda>w. snd (send u tmo w)) (calls evs))"
proof -
  from assms(1) obtain s0 where i: "start_init reqs conc = Inr s0" and r: "run u tmo evs s0 = Next s"
    by (auto simp: start_def split: sum.splits)
  from start_init_invariant [OF i] have inv0: "invariant s0"
    and ws: "workers s0 = replicate (nat (sint conc)) AtRange" by simp_all
  from i have z: "idx s0 = 0" "buf (out s0) = []"
    by (auto simp: start_init_def split: if_splits)
  have "sum_list (map out_of (workers s0)) = {#}"
    unfolding ws by (simp add: sum_list_replicate_empty)
  with z have p0: "produced s0 = {#}" by (simp add: produced_def)
  from run_invariant [OF inv0 r] have inv: "invariant s" by simp
  from invariant_finished [OF inv assms(2)]
  have e: "idx s = requests s" "length (results s) = requests s" "buf (out s) = []"
    "\<forall>w \<in> set (workers s). w = AtRange" by simp_all
  have "sum_list (map out_of (workers s)) = {#}"
    using e(4) by (rule out_of_idle)
  with e have "produced s = mset (results s)" by (simp add: produced_def)
  with run_produced [OF inv0 r] p0 show ?thesis by simp
qed

lemma successes_count:
  assumes "mset (map Inr rs) = mset (map (\<lambda>w. snd (send u tmo w)) ws)"
  shows "length (successes rs) = length (filter (ok_call u tmo) ws)"
proof -
  let ?P = "\<lambda>x :: panic + result. case x of Inr r \<Rightarrow> err r = None | Inl p \<Rightarrow> False"
  have "length (successes rs) = length (filter ?P (map Inr rs))"
    by (simp add: successes_def filter_map comp_def)
  also have "\<dots> = size (filter_mset ?P (mset (map Inr rs)))"
    by (metis mset_filter size_mset)
  also have "\<dots> = size (filter_mset ?P (mset (map (\<lambda>w. snd (send u tmo w)) ws)))"
    using assms by simp
  also have "\<dots> = length (filter ?P (map (\<lambda>w. snd (send u tmo w)) ws))"
    by (metis mset_filter size_mset)
  also have "\<dots> = length (filter (ok_call u tmo) ws)"
    by (simp add: filter_map comp_def ok_call_def [abs_def])
  finally show ?thesis .
qed

lemma concurrency_message_one_line:
  "count_list concurrency_message (CHR 0x0A) = 1 \<and> last concurrency_message = CHR 0x0A"
  by (simp add: concurrency_message_def)

section \<open>The claims\<close>

subsection \<open>C1: what start returns\<close>

text \<open>
  Claim C1. When start returns (for any request count and concurrency it accepts, so
  in particular for every valid configuration), the \<^verbatim>\<open>results\<close> slice has \<^verbatim>\<open>requests\<close>
  slots and the collecting loop has assigned each of them once, in order; the slots
  hold, each once, exactly the results that the calls of send of the run returned,
  and there were \<^verbatim>\<open>requests\<close> such calls; the tickets pulled from the queue are exactly
  0, ..., requests - 1, each once, and the queue is empty. The number of results
  without error is the number of calls of send that returned without error; the
  failure count \<^verbatim>\<open>*reqs - len(times)\<close> is not negative, and with that number it adds up
  to \<^verbatim>\<open>*reqs\<close>; a report that printStats produces carries \<^verbatim>\<open>*reqs\<close> and that failure
  count, and printStats produces one whenever \<^verbatim>\<open>*reqs\<close> is not zero.
\<close>

theorem start_results_complete:
  assumes "start u tmo reqs conc evs = Next s" and "finished s"
  shows "length (results s) = nat (sint reqs)
       \<and> stored s = [0..<nat (sint reqs)]
       \<and> mset (map Inr (results s)) = mset (map (\<lambda>w. snd (send u tmo w)) (calls evs))
       \<and> length (calls evs) = nat (sint reqs)
       \<and> dispatched s = [0..<nat (sint reqs)]
       \<and> distinct (dispatched s) \<and> set (dispatched s) = {0..<nat (sint reqs)}
       \<and> buf (queue s) = []
       \<and> length (successes (results s)) = length (filter (ok_call u tmo) (calls evs))
       \<and> 0 \<le> sint (reqs - of_nat (length (successes (results s))))
       \<and> int (length (successes (results s)))
           + sint (reqs - of_nat (length (successes (results s)))) = sint reqs
       \<and> (\<forall>rep. printStats reqs (results s) wt = Inr rep \<longrightarrow>
             requests_performed rep = reqs
             \<and> failures rep = reqs - of_nat (length (successes (results s))))
       \<and> (reqs \<noteq> 0 \<longrightarrow> (\<exists>rep. printStats reqs (results s) wt = Inr rep))"
proof -
  let ?n = "nat (sint reqs)"
  let ?k = "length (successes (results s))"
  from start_invariant [OF assms(1)] have inv: "invariant s" and n: "requests s = ?n"
    and nn: "0 \<le> sint reqs" by simp_all
  from invariant_finished [OF inv assms(2)] n
  have len: "length (results s) = ?n" and st: "stored s = [0..<?n]"
    and di: "dispatched s = [0..<?n]" and q: "buf (queue s) = []" by simp_all
  from start_produced [OF assms]
  have pr: "mset (map Inr (results s)) = mset (map (\<lambda>w. snd (send u tmo w)) (calls evs))" .
  then have "length (results s) = length (calls evs)" by (metis length_map size_mset)
  with len have nc: "length (calls evs) = ?n" by simp
  from successes_count [OF pr]
  have sc: "?k = length (filter (ok_call u tmo) (calls evs))" .
  have "?k \<le> length (results s)" by (simp add: successes_def)
  with len nn have k: "int ?k \<le> sint reqs" by simp
  from sint_minus_count [OF k] have f: "sint (reqs - of_nat ?k) = sint reqs - int ?k" .
  have rep: "\<forall>rep. printStats reqs (results s) wt = Inr rep \<longrightarrow>
             requests_performed rep = reqs \<and> failures rep = reqs - of_nat ?k"
    using printStats_report by blast
  have ex: "reqs \<noteq> 0 \<longrightarrow> (\<exists>rep. printStats reqs (results s) wt = Inr rep)"
    using printStats_reports by blast
  from di have ds: "distinct (dispatched s) \<and> set (dispatched s) = {0..<?n}" by simp
  have fk: "0 \<le> sint (reqs - of_nat ?k)
      \<and> int ?k + sint (reqs - of_nat ?k) = sint reqs" using k f by simp
  from len st pr nc di ds q sc fk rep ex show ?thesis by blast
qed

theorem start_results_complete_witness:
  "\<exists>s. start example_url 1000 2 2 two_requests = Next s \<and> finished s
       \<and> length (results s) = 2 \<and> stored s = [0, 1] \<and> dispatched s = [0, 1]
       \<and> mset (map Inr (results s))
           = {#snd (send example_url 1000 silent_peer), snd (send example_url 1000 answering)#}
       \<and> results s = [\<lparr>time = 7000000, err = None\<rparr>,
                      \<lparr>time = 1003000000, err = Some (ErrorsNew ''Timeout!'')\<rparr>]
       \<and> length (successes (results s)) = 1
       \<and> length (filter (ok_call example_url 1000) (calls two_requests)) = 1
       \<and> sint ((2 :: go_int) - of_nat (length (successes (results s)))) = 1"
proof -
  from start_eval_two obtain s where s: "start example_url 1000 2 2 two_requests = Next s"
    and f: "finished s" by blast
  from start_eval_two_full s have r: "results s =
       [\<lparr>time = 7000000, err = None\<rparr>,
        \<lparr>time = 1003000000, err = Some (ErrorsNew ''Timeout!'')\<rparr>]" by simp
  then have k: "length (successes (results s)) = 1" by (simp add: successes_def)
  have c: "calls two_requests = [silent_peer, answering]" by (simp add: two_requests_def)
  note T = start_results_complete [OF s f, of 0]
  have n: "nat (sint (2 :: go_int)) = 2" by simp
  from T have "stored s = [0..<nat (sint (2 :: go_int))]"
    and "dispatched s = [0..<nat (sint (2 :: go_int))]" by blast+
  then have sd: "stored s = [0, 1]" "dispatched s = [0, 1]"
    unfolding n by (simp_all add: upt_rec numeral_2_eq_2)
  from T have "mset (map Inr (results s))
      = mset (map (\<lambda>w. snd (send example_url 1000 w)) (calls two_requests))" by blast
  then have m: "mset (map Inr (results s))
      = {#snd (send example_url 1000 silent_peer), snd (send example_url 1000 answering)#}"
    unfolding c by simp
  from T have "length (successes (results s))
      = length (filter (ok_call example_url 1000) (calls two_requests))" by blast
  with k have o: "length (filter (ok_call example_url 1000) (calls two_requests)) = 1" by simp
  from T have "int (length (successes (results s)))
      + sint ((2 :: go_int) - of_nat (length (successes (results s)))) = sint (2 :: go_int)"
    by blast
  with k have fl: "sint ((2 :: go_int) - of_nat (length (successes (results s)))) = 1" by simp
  from r have l: "length (results s) = 2" by simp
  from s f l sd m r k o fl show ?thesis by blast
qed

subsection \<open>C2: no successful result\<close>

text \<open>
  For a result set without a successful result printStats skips the division by the
  number of successes and the read of the sorted latencies, and reports average 0 and
  median 0, as long as \<^verbatim>\<open>*reqs\<close> is not zero (lemma \<open>printStats_no_success\<close>).

  Claim C2 fails at the empty result set. With \<^verbatim>\<open>-n 0 -c 0\<close> main accepts the
  configuration, start returns an empty slice at once, and printStats panics in
  \<^verbatim>\<open>workTime.Nanoseconds() / int64(*reqs)\<close>, a division by zero, before it prints any
  report.
\<close>

theorem printStats_zero_requests_panics:
  "successes [] = []
   \<and> printStats 0 [] workTime = Inl DivideByZero
   \<and> main (parse_as example_url) zero_requests [Finish] t0 t1
       = [GetURL ''http://example.com/'', GOMAXPROCS 0,
          Print (StatisticsFor ''http://example.com/''), Print Erase, Crash DivideByZero]"
proof -
  have a: "successes [] = []" by (simp add: successes_def)
  have b: "printStats 0 [] (Sub t1 t0) = Inl DivideByZero"
    by (simp add: printStats_def sort_Sort_def average_median_def quo_def)
  have b': "printStats 0 [] workTime = Inl DivideByZero"
    by (simp add: printStats_def sort_Sort_def average_median_def quo_def)
  have c: "getURL (parse_as example_url) ''http://example.com/'' = Inr example_url"
    by (simp add: getURL_def parse_as_def example_url_def hasPort_def LastIndex_def)
  have d: "start example_url 1000 0 0 [Finish]
             = Next \<lparr>requests = 0, queue = \<lparr>buf = [], cap = 0, is_closed = False\<rparr>,
                      out = \<lparr>buf = [], cap = 0, is_closed = False\<rparr>, workers = [],
                      results = [], idx = 0, finished = True, dispatched = [], stored = [],
                      printed = [Erase], net = []\<rparr>"
    by (simp add: start_def start_init_def preload_eq start_finish_def)
  have "main (parse_as example_url) zero_requests [Finish] t0 t1
       = [GetURL ''http://example.com/'', GOMAXPROCS 0,
          Print (StatisticsFor ''http://example.com/''), Print Erase, Crash DivideByZero]"
    using b c d by (simp add: main_def main_start_def zero_requests_def run_actions_def)
  with a b' show ?thesis by simp
qed

subsection \<open>C3: median and average\<close>

text \<open>
  Claim C3. For a result set with at least one successful result (\<^verbatim>\<open>*reqs\<close> is then not
  zero, being the length of the slice), printStats reports a median and an average
  such that: the latencies of the successes, put in ascending order, form a list
  \<open>srt\<close>; the median is its element at index count div 2, which exists, and which for
  an even count 2 * k is the element at index k, the upper of the two middle ones; the
  average is the int64 sum of the latencies divided by their count, and when the sum
  of the latencies fits an int64 that is their sum divided by their count, truncated
  towards zero. The latencies 10, 20, 30 and 40 ms give the median 30 ms.
\<close>

theorem printStats_median_average:
  assumes "successes rs \<noteq> []" and "reqs \<noteq> 0"
  shows "\<exists>rep srt. printStats reqs rs workTime = Inr rep
           \<and> sorted (map sint srt) \<and> mset srt = mset (latencies rs)
           \<and> length (latencies rs) div 2 < length srt
           \<and> median rep = srt ! (length (latencies rs) div 2)
           \<and> (\<forall>k. length (latencies rs) = 2 * k \<longrightarrow> median rep = srt ! k)
           \<and> average rep =
               word_of_int (sint (sum_list (latencies rs)) sdiv int (length (latencies rs)))
           \<and> (- (2 ^ 63) \<le> sum_list (map sint (latencies rs))
                \<and> sum_list (map sint (latencies rs)) < 2 ^ 63 \<longrightarrow>
              sint (average rep) =
                sum_list (map sint (latencies rs)) sdiv int (length (latencies rs)))"
proof -
  let ?lat = "latencies rs"
  have ne: "?lat \<noteq> []" using assms(1) by (simp add: latencies_def)
  let ?rep = "\<lparr>requests_performed = reqs,
                failures = reqs - of_nat (length ?lat),
                time_taken = workTime,
                average = word_of_int (sint (sum_list ?lat) sdiv int (length ?lat)),
                median = sort_Sort ?lat ! (length ?lat div 2),
                between_responses = word_of_int (sint workTime sdiv sint reqs)\<rparr>"
  have run: "printStats reqs rs workTime = Inr ?rep"
    using ne assms(2) by (rule printStats_some_success)
  have "0 < length ?lat" using ne by simp
  then have inb: "length ?lat div 2 < length (sort_Sort ?lat)" by simp
  have even: "\<forall>k. length ?lat = 2 * k \<longrightarrow> median ?rep = sort_Sort ?lat ! k" by simp
  have exact: "- (2 ^ 63) \<le> sum_list (map sint ?lat) \<and> sum_list (map sint ?lat) < 2 ^ 63 \<longrightarrow>
      sint (average ?rep) = sum_list (map sint ?lat) sdiv int (length ?lat)"
    using average_exact [OF ne] by simp
  show ?thesis
    using run sort_Sort_ascending [of ?lat] sort_Sort_mset [of ?lat] inb even exact
    by (intro exI [of _ ?rep] exI [of _ "sort_Sort ?lat"]) simp
qed

theorem printStats_median_average_witness:
  "successes four_latencies \<noteq> [] \<and> (4 :: go_int) \<noteq> 0
   \<and> (\<exists>rep. printStats 4 four_latencies 0 = Inr rep
          \<and> median rep = msec 30 \<and> average rep = msec 25)"
proof -
  have s: "successes four_latencies \<noteq> []"
    by (simp add: successes_def four_latencies_def)
  have n: "(4 :: go_int) \<noteq> 0" by simp
  from printStats_median_average [OF s n, of 0]
  obtain rep srt where rep: "printStats 4 four_latencies 0 = Inr rep" by blast
  have "printStats 4 four_latencies 0 =
          Inr \<lparr>requests_performed = 4, failures = 0, time_taken = 0,
               average = 25000000, median = 30000000, between_responses = 0\<rparr>"
    by (simp add: printStats_def four_latencies_def msec_def sort_Sort_def
          average_median_def quo_def index_def)
  with rep have "median rep = msec 30 \<and> average rep = msec 25"
    by (auto simp: msec_def)
  with s n rep show ?thesis by blast
qed

subsection \<open>C4: the port of a host without one\<close>

text \<open>
  Claim C4 gives an https URL without a port the port 443. getURL appends the service
  name http whatever the scheme, which is port 80: the claim fails at
  \<^verbatim>\<open>https://example.com/\<close>.
\<close>

theorem getURL_https_port_counterexample:
  "getURL (parse_as example_https) ''https://example.com/''
     = Inr \<lparr>Scheme = ''https'', Host = ''example.com:http'', Rest = ''/''\<rparr>
   \<and> \<not> hasPort (Host example_https)
   \<and> dial_port ''example.com:http'' = Some 80
   \<and> default_port ''https'' = Some 443
   \<and> dial_port ''example.com:http'' \<noteq> default_port ''https''"
  by (simp add: getURL_def parse_as_def example_https_def hasPort_def LastIndex_def
        dial_port_def port_text_def LookupPort_def default_port_def)

text \<open>
  Claim C4, amended. For every URL that getURL accepts and whose host has no port,
  the host of the result is the parsed host followed by \<^verbatim>\<open>:http\<close>, and dialling it
  uses port 80, for http and for https. The getURL of gofigure.go, for a host without
  a colon, returns the resolved address followed by \<^verbatim>\<open>:80\<close>, again for both schemes.
\<close>

theorem getURL_portless_port:
  "(getURL parse rawurl = Inr U' \<longrightarrow> parse rawurl = Inr U \<longrightarrow> \<not> hasPort (Host U) \<longrightarrow>
      Host U' = Host U @ '':http'' \<and> dial_port (Host U') = Some 80)
   \<and> (getURL_addr parse resolve rawurl = Inr (V, addr) \<longrightarrow> CHR '':'' \<notin> set (Host V) \<longrightarrow>
      (\<exists>ip. resolve (Host V) = Inr ip \<and> addr = ip @ '':80'') \<and> dial_port addr = Some 80)"
proof (intro conjI impI)
  assume a: "getURL parse rawurl = Inr U'" "parse rawurl = Inr U" "\<not> hasPort (Host U)"
  from getURL_accepted [OF a(1)] a(2,3) show h: "Host U' = Host U @ '':http''" by auto
  show "dial_port (Host U') = Some 80" unfolding h by (rule dial_port_http)
next
  assume b: "getURL_addr parse resolve rawurl = Inr (V, addr)" "CHR '':'' \<notin> set (Host V)"
  from b(1) obtain ip where p: "parse rawurl = Inr V"
    and r: "resolve (Split (Host V) CHR '':'' ! 0) = Inr ip"
    and ad: "addr = ip @ '':'' @ (if length (Split (Host V) CHR '':'') > 1
                                  then Split (Host V) CHR '':'' ! 1 else ''80'')"
    by (auto simp: getURL_addr_def Let_def split: sum.splits if_splits)
  have sp: "Split (Host V) CHR '':'' = [Host V]" using b(2) by (rule Split_no_sep)
  from r ad sp show "\<exists>ip. resolve (Host V) = Inr ip \<and> addr = ip @ '':80''" by simp
  from ad sp have "addr = ip @ '':'' @ ''80''" by simp
  then show "dial_port addr = Some 80" using dial_port_80 by simp
qed

theorem getURL_portless_port_witness:
  "getURL (parse_as example_https) ''https://example.com/''
     = Inr \<lparr>Scheme = ''https'', Host = ''example.com:http'', Rest = ''/''\<rparr>
   \<and> parse_as example_https ''https://example.com/'' = Inr example_https
   \<and> \<not> hasPort (Host example_https)
   \<and> getURL_addr (parse_as example_https) (resolve_as ''93.184.216.34'') ''https://example.com/''
       = Inr (example_https, ''93.184.216.34:80'')
   \<and> CHR '':'' \<notin> set (Host example_https)
   \<and> dial_port (Host \<lparr>Scheme = ''https'', Host = ''example.com:http'', Rest = ''/''\<rparr>) = Some 80
   \<and> dial_port ''93.184.216.34:80'' = Some 80"
proof -
  let ?U' = "\<lparr>Scheme = ''https'', Host = ''example.com:http'', Rest = ''/''\<rparr>"
  have 1: "getURL (parse_as example_https) ''https://example.com/'' = Inr ?U'"
    by (simp add: getURL_def parse_as_def example_https_def hasPort_def LastIndex_def)
  have 2: "parse_as example_https ''https://example.com/'' = Inr example_https"
    by (simp add: parse_as_def)
  have 3: "\<not> hasPort (Host example_https)"
    by (simp add: example_https_def hasPort_def LastIndex_def)
  have 4: "getURL_addr (parse_as example_https) (resolve_as ''93.184.216.34'')
             ''https://example.com/'' = Inr (example_https, ''93.184.216.34:80'')"
    by (simp add: getURL_addr_def parse_as_def resolve_as_def example_https_def)
  have 5: "CHR '':'' \<notin> set (Host example_https)"
    by (simp add: example_https_def)
  from getURL_portless_port
         [of "parse_as example_https" "''https://example.com/''" ?U' example_https
             "resolve_as ''93.184.216.34''" example_https "''93.184.216.34:80''"]
       1 2 3 4 5
  show ?thesis by simp
qed

subsection \<open>C5: concurrency above the number of requests\<close>

text \<open>
  Claim C5 has every configuration with \<^verbatim>\<open>concurrency > requests\<close> print the one-line
  error. main looks at the arguments first: without a URL it prints the usage text
  and returns, whatever the flags are.
\<close>

theorem main_usage_counterexample:
  "sint (concurrency_flag no_url) > sint (reqs_flag no_url)
   \<and> main (parse_as example_https) no_url [] 0 0 = [Print Usage]
   \<and> main (parse_as example_https) no_url [] 0 0 \<noteq> [Print (Text concurrency_message)]"
  by (simp add: main_def no_url_def)

text \<open>
  Claim C5, amended. For every configuration with \<^verbatim>\<open>concurrency > requests\<close>: when a
  URL is given, main prints the error and nothing else, and the error is one line;
  when none is given, main prints the usage text and nothing else. Either way it
  returns without a call of getURL, without a ticket and without any network
  activity.
\<close>

theorem main_rejects_concurrency:
  assumes "sint (concurrency_flag cfg) > sint (reqs_flag cfg)"
  shows "(args cfg \<noteq> [] \<longrightarrow> main parse cfg evs t0 t1 = [Print (Text concurrency_message)])
       \<and> (args cfg = [] \<longrightarrow> main parse cfg evs t0 t1 = [Print Usage])
       \<and> filter is_work (main parse cfg evs t0 t1) = []
       \<and> count_list concurrency_message (CHR 0x0A) = 1
       \<and> last concurrency_message = CHR 0x0A"
  using assms concurrency_message_one_line by (simp add: main_def)

theorem main_rejects_concurrency_witness:
  "sint (concurrency_flag too_concurrent) > sint (reqs_flag too_concurrent)
   \<and> args too_concurrent \<noteq> []
   \<and> main (parse_as example_https) too_concurrent two_requests 0 0
       = [Print (Text concurrency_message)]
   \<and> filter is_work (main (parse_as example_https) too_concurrent two_requests 0 0) = []"
proof -
  have c: "sint (concurrency_flag too_concurrent) > sint (reqs_flag too_concurrent)"
    by (simp add: too_concurrent_def)
  have a: "args too_concurrent \<noteq> []" by (simp add: too_concurrent_def)
  from main_rejects_concurrency [OF c, of "parse_as example_https" two_requests 0 0] c a
  show ?thesis by simp
qed

subsection \<open>C6: the race between the timer and the read\<close>

text \<open>
  After a connect and a write that succeed, send returns the timeout result when the
  timer case of the \<^verbatim>\<open>select\<close> is taken (lemma \<open>send_timer_first\<close>), and when the read
  case is taken with a response it closes the connection and the body and returns the
  error of the read, nil for a read that succeeded (lemma \<open>send_read_first\<close>).

  Claim C6 fails for a read that ends in an error: \<^verbatim>\<open>http.ReadResponse\<close> then returns a
  nil response, and send, having closed the connection, panics in
  \<^verbatim>\<open>rerr.resp.Body.Close()\<close> instead of returning the result that carries the error.
\<close>

theorem send_read_error_panics:
  "send u tmo \<lparr>clock_start = t0, dial_err = None, dial_end = t1, write_err = None,
               write_end = t2, raced = ReadDone \<lparr>resp = None, rerr = Some e\<rparr> t3\<rparr>
     = ([Dial (Host u), WriteRequest, GoReadResponse, After (tmo * 1000000), ConnClose],
        Inl NilDereference)"
  by (simp add: send_def)

subsection \<open>C7: the elapsed time of a result\<close>

text \<open>
  Claim C7 has the elapsed time of every result measure the clock from just before
  the dial to the moment the outcome is decided. A dial refused 5 ms after send read
  the clock gives a result with elapsed time 0.
\<close>

theorem send_elapsed_counterexample:
  "snd (send example_url 1000 refused)
     = Inr \<lparr>time = 0, err = Some (LibError ''connection refused'')\<rparr>
   \<and> Sub (decided refused) (clock_start refused) = 5000000
   \<and> time \<lparr>time = 0, err = Some (LibError ''connection refused'')\<rparr>
       \<noteq> Sub (decided refused) (clock_start refused)"
  by (simp add: send_def refused_def decided_def Sub_def)

text \<open>
  Claim C7, amended. For every result that send returns: after a failed connect or a
  failed write the elapsed time is 0; otherwise, the outcome being decided by the
  timer or by the read, it is the difference on the clock between the reading taken
  just before the dial and the moment the outcome is decided (\<^verbatim>\<open>time.Now().Sub(now)\<close>,
  the exact difference whenever that fits a Duration), so it covers the connect, the
  write and the read or timeout.
\<close>

theorem send_elapsed:
  assumes "snd (send u tmo w) = Inr r"
  shows "(dial_err w \<noteq> None \<or> write_err w \<noteq> None \<longrightarrow> time r = 0)
       \<and> (dial_err w = None \<and> write_err w = None \<longrightarrow>
            time r = Sub (decided w) (clock_start w)
            \<and> (- (2 ^ 63) \<le> decided w - clock_start w \<and> decided w - clock_start w < 2 ^ 63
                 \<longrightarrow> sint (time r) = decided w - clock_start w))"
proof (intro conjI impI)
  assume "dial_err w \<noteq> None \<or> write_err w \<noteq> None"
  then show "time r = 0"
    using assms by (auto simp: send_def split: option.splits)
next
  assume ok: "dial_err w = None \<and> write_err w = None"
  then show eq: "time r = Sub (decided w) (clock_start w)"
    using assms by (auto simp: send_def decided_def split: race.splits option.splits)
  assume "- (2 ^ 63) \<le> decided w - clock_start w \<and> decided w - clock_start w < 2 ^ 63"
  then show "sint (time r) = decided w - clock_start w"
    unfolding eq by (simp add: Sub_exact)
qed

theorem send_elapsed_witness:
  "snd (send example_url 1000 silent_peer)
     = Inr \<lparr>time = 1003000000, err = Some (ErrorsNew ''Timeout!'')\<rparr>
   \<and> dial_err silent_peer = None \<and> write_err silent_peer = None
   \<and> - (2 ^ 63) \<le> decided silent_peer - clock_start silent_peer
   \<and> decided silent_peer - clock_start silent_peer < 2 ^ 63
   \<and> sint (time \<lparr>time = 1003000000, err = Some (ErrorsNew ''Timeout!'')\<rparr>)
       = decided silent_peer - clock_start silent_peer"
proof -
  have 1: "snd (send example_url 1000 silent_peer)
     = Inr \<lparr>time = 1003000000, err = Some (ErrorsNew ''Timeout!'')\<rparr>"
    by (simp add: send_def silent_peer_def Sub_def)
  have 2: "dial_err silent_peer = None \<and> write_err silent_peer = None"
    by (simp add: silent_peer_def)
  have 3: "- (2 ^ 63) \<le> decided silent_peer - clock_start silent_peer
   \<and> decided silent_peer - clock_start silent_peer < 2 ^ 63"
    by (simp add: silent_peer_def decided_def)
  from send_elapsed [OF 1] 1 2 3 show ?thesis by blast
qed

subsection \<open>C8: the progress message\<close>

text \<open>
  In every state of a run, what has been printed is the progress of the turns taken,
  then the erasing line once start has returned (lemma \<open>printed_progress\<close>).

  Claim C8 has the progress message follow the 100th, 200th, ... result. The loop
  tests its index \<^verbatim>\<open>i\<close> before the increment, so with \<^verbatim>\<open>-n 101 -c 1\<close> nothing has been
  printed when 100 results are collected, and \<^verbatim>\<open>Completed 100 from 101 requests\<close> is
  printed in the turn that stores the 101st.
\<close>

theorem progress_after_101st:
  "\<exists>s s'. start u tmo 101 1 (rounds answering 100) = Next s
        \<and> idx s = 100 \<and> stored s = [0..<100] \<and> printed s = []
        \<and> start u tmo 101 1 (rounds answering 101) = Next s'
        \<and> idx s' = 101 \<and> stored s' = [0..<101] \<and> printed s' = [Completed 100 101]"
proof -
  have r: "(0::int) \<le> sint (101 :: go_int)" and c: "0 < sint (1 :: go_int)" by simp_all
  have n: "nat (sint (101 :: go_int)) = 101" by simp
  from start_rounds [OF r c _ send_answering, of 100 u tmo] n obtain s where
    s: "start u tmo 101 1 (rounds answering 100) = Next s" "idx s = 100"
       "stored s = [0..<100]" "printed s = progress 100 101" by auto
  from start_rounds [OF r c _ send_answering, of 101 u tmo] n obtain s' where
    s': "start u tmo 101 1 (rounds answering 101) = Next s'" "idx s' = 101"
       "stored s' = [0..<101]" "printed s' = progress 101 101" by auto
  from s s' show ?thesis by (auto simp: progress_none progress_101)
qed

subsection \<open>C9: the goroutines of sender\<close>

text \<open>
  Claim C9 has each goroutine of sender leave its loop once the queue is drained.
  Nothing closes the queue, so \<^verbatim>\<open>for range queue\<close> never ends: in the state in which
  start returns under \<open>one_request\<close> the queue is empty and the goroutine stands at the
  head of its loop, blocked.
\<close>

theorem sender_blocked_counterexample:
  "start example_url 1000 1 1 one_request = Next drained
   \<and> finished drained \<and> buf (queue drained) = []
   \<and> workers drained = [AtRange]
   \<and> sender_recv 0 drained = Stuck"
  using start_eval_one by (simp add: drained_def sender_recv_def)

text \<open>
  Claim C9, amended. In every state of a run of start, a goroutine of sender at the
  head of its loop pulls the next ticket from the queue; holding a ticket it calls
  send; holding the result it puts it on \<^verbatim>\<open>out\<close> when there is room and is back at the
  head of its loop. Once the queue is drained it blocks there: the queue is never
  closed, and no goroutine ever leaves its loop.
\<close>

theorem sender_loop:
  assumes "start u tmo reqs conc evs = Next s"
  shows "(k < length (workers s) \<and> workers s ! k = AtRange \<and> buf (queue s) = t # q \<longrightarrow>
            sender_recv k s = Next (s\<lparr>queue := (queue s)\<lparr>buf := q\<rparr>,
                                      workers := (workers s)[k := InSend t],
                                      dispatched := dispatched s @ [t]\<rparr>))
       \<and> (k < length (workers s) \<and> workers s ! k = InSend t \<and> send u tmo w = (ios, Inr r) \<longrightarrow>
            sender_call u tmo k w s = Next (s\<lparr>workers := (workers s)[k := AtOut r],
                                             net := net s @ ios\<rparr>))
       \<and> (k < length (workers s) \<and> workers s ! k = AtOut r
            \<and> length (buf (out s)) < cap (out s) \<longrightarrow>
            sender_put k s = Next (s\<lparr>out := (out s)\<lparr>buf := buf (out s) @ [r]\<rparr>,
                                    workers := (workers s)[k := AtRange]\<rparr>))
       \<and> (buf (queue s) = [] \<longrightarrow> sender_recv k s = Stuck)
       \<and> \<not> is_closed (queue s)
       \<and> Returned \<notin> set (workers s)"
proof -
  from start_invariant [OF assms] have inv: "invariant s" by simp
  then have op: "\<not> is_closed (queue s)" and nr: "Returned \<notin> set (workers s)"
    by (simp_all add: invariant_def)
  have a: "k < length (workers s) \<and> workers s ! k = AtRange \<and> buf (queue s) = t # q \<longrightarrow>
            sender_recv k s = Next (s\<lparr>queue := (queue s)\<lparr>buf := q\<rparr>,
                                      workers := (workers s)[k := InSend t],
                                      dispatched := dispatched s @ [t]\<rparr>)"
    by (simp add: sender_recv_def)
  have b: "k < length (workers s) \<and> workers s ! k = InSend t \<and> send u tmo w = (ios, Inr r) \<longrightarrow>
            sender_call u tmo k w s = Next (s\<lparr>workers := (workers s)[k := AtOut r],
                                             net := net s @ ios\<rparr>)"
    by (simp add: sender_call_def)
  have c: "k < length (workers s) \<and> workers s ! k = AtOut r
            \<and> length (buf (out s)) < cap (out s) \<longrightarrow>
            sender_put k s = Next (s\<lparr>out := (out s)\<lparr>buf := buf (out s) @ [r]\<rparr>,
                                    workers := (workers s)[k := AtRange]\<rparr>)"
    by (simp add: sender_put_def)
  have d: "buf (queue s) = [] \<longrightarrow> sender_recv k s = Stuck"
    using op by (simp add: sender_recv_def)
  from a b c d op nr show ?thesis by blast
qed

theorem sender_loop_witness:
  "start example_url 1000 1 1 one_request = Next drained
   \<and> buf (queue drained) = []
   \<and> sender_recv 0 drained = Stuck
   \<and> \<not> is_closed (queue drained)
   \<and> Returned \<notin> set (workers drained)"
proof -
  have q: "buf (queue drained) = []" by (simp add: drained_def)
  from sender_loop [OF start_eval_one, of 0] q start_eval_one show ?thesis by blast
qed

subsection \<open>C10: the host that getURL returns\<close>

text \<open>
  Claim C10. For every URL that getURL accepts, the scheme is http or https and the
  result is the parsed URL with its host unchanged when hasPort holds of it, and
  followed by \<^verbatim>\<open>:http\<close> otherwise, whichever the scheme. hasPort holds of a host
  exactly when its last colon comes after its last closing bracket, that is, when
  some colon has neither a colon nor a closing bracket after it; so it does not hold
  of \<^verbatim>\<open>[::1]\<close>.
\<close>

theorem getURL_host:
  assumes "getURL parse rawurl = Inr U'"
  shows "(\<exists>U. parse rawurl = Inr U
            \<and> (Scheme U = ''http'' \<or> Scheme U = ''https'')
            \<and> Scheme U' = Scheme U \<and> Rest U' = Rest U
            \<and> Host U' = (if hasPort (Host U) then Host U else Host U @ '':http''))
         \<and> hasPort h = (LastIndex h CHR '':'' > LastIndex h CHR '']'')
         \<and> hasPort h =
             (\<exists>pre suf. h = pre @ CHR '':'' # suf
                \<and> CHR '':'' \<notin> set suf \<and> CHR '']'' \<notin> set suf)
         \<and> \<not> hasPort ''[::1]''"
proof -
  from getURL_accepted [OF assms] obtain U where U: "parse rawurl = Inr U"
    "Scheme U = ''http'' \<or> Scheme U = ''https''"
    "U' = (if hasPort (Host U) then U else U\<lparr>Host := Host U @ '':http''\<rparr>)"
    by blast
  from U(3) have "Scheme U' = Scheme U \<and> Rest U' = Rest U
      \<and> Host U' = (if hasPort (Host U) then Host U else Host U @ '':http'')"
    by simp
  with U(1,2) have first: "\<exists>U. parse rawurl = Inr U
            \<and> (Scheme U = ''http'' \<or> Scheme U = ''https'')
            \<and> Scheme U' = Scheme U \<and> Rest U' = Rest U
            \<and> Host U' = (if hasPort (Host U) then Host U else Host U @ '':http'')"
    by blast
  show ?thesis
    using first hasPort_iff [of h] hasPort_bracketed by (simp add: hasPort_def)
qed

theorem getURL_host_witness:
  "getURL (parse_as loopback6) ''http://[::1]/''
     = Inr \<lparr>Scheme = ''http'', Host = ''[::1]:http'', Rest = ''/''\<rparr>
   \<and> (\<exists>U. parse_as loopback6 ''http://[::1]/'' = Inr U
         \<and> Host \<lparr>Scheme = ''http'', Host = ''[::1]:http'', Rest = ''/''\<rparr>
             = (if hasPort (Host U) then Host U else Host U @ '':http''))
   \<and> \<not> hasPort ''[::1]''"
proof -
  have 1: "getURL (parse_as loopback6) ''http://[::1]/''
     = Inr \<lparr>Scheme = ''http'', Host = ''[::1]:http'', Rest = ''/''\<rparr>"
    by (simp add: getURL_def parse_as_def loopback6_def hasPort_def LastIndex_def)
  from getURL_host [OF 1, of "''[::1]''"] 1 show ?thesis by blast
qed

end
